theory Spec2Isabelle
  imports Complex_Main "HOL-Library.Sublist"
begin

section \<open>Data model of the conversion screen (src/app/layout.tsx, component Home)\<close>

text \<open>
  A JavaScript number. The handlers below only store and copy parameter values, they
  never compute with them, so the carrier of the numbers plays no role in any result.
\<close>

type_synonym number = real

text \<open>The property names of \<^verbatim>\<open>interface ProcessorParams\<close>, i.e. \<^verbatim>\<open>keyof ProcessorParams\<close>.\<close>

datatype ParamKey =
  threshold | denoise | turdsize | alphamax | optimize_tolerance
  | inverted | fill_holes | show_debug

text \<open>The argument type \<^verbatim>\<open>number | boolean\<close> of \<^verbatim>\<open>updateParam\<close>.\<close>

datatype jsval = Num number | Bool bool

text \<open>
  A parameter object is a JavaScript object: a finite map from property names to values.
  The spread \<^verbatim>\<open>{ ...prev, [key]: value }\<close> is a map update. The optional property
  \<^verbatim>\<open>show_debug\<close> may be missing.
\<close>

type_synonym ProcessorParams = "ParamKey \<rightharpoonup> jsval"

text \<open>The typing that \<^verbatim>\<open>interface ProcessorParams\<close> declares for each property.\<close>

fun field_type_ok :: "ParamKey \<Rightarrow> jsval \<Rightarrow> bool" where
  "field_type_ok inverted (Bool b) = True"
| "field_type_ok fill_holes (Bool b) = True"
| "field_type_ok show_debug (Bool b) = True"
| "field_type_ok threshold (Num n) = True"
| "field_type_ok denoise (Num n) = True"
| "field_type_ok turdsize (Num n) = True"
| "field_type_ok alphamax (Num n) = True"
| "field_type_ok optimize_tolerance (Num n) = True"
| "field_type_ok k v = False"

definition well_typed :: "ProcessorParams \<Rightarrow> bool" where
  "well_typed p \<longleftrightarrow>
     (\<forall>k. case p k of None \<Rightarrow> k = show_debug | Some v \<Rightarrow> field_type_ok k v)"

definition DEFAULT_PARAMS :: ProcessorParams where
  "DEFAULT_PARAMS =
     [threshold \<mapsto> Num 128,
      denoise \<mapsto> Num 0,
      turdsize \<mapsto> Num 10,
      alphamax \<mapsto> Num 1.0,
      optimize_tolerance \<mapsto> Num 0.2,
      inverted \<mapsto> Bool False,
      fill_holes \<mapsto> Bool False]"

record Preset =
  name :: string
  description :: string
  params :: ProcessorParams

text \<open>\<^verbatim>\<open>type PresetKey = 'clean' | 'photo' | 'laser' | 'custom'\<close>, and the string each key is.\<close>

datatype PresetKey = clean | photo | laser | custom

fun key_string :: "PresetKey \<Rightarrow> string" where
  "key_string clean = ''clean''"
| "key_string photo = ''photo''"
| "key_string laser = ''laser''"
| "key_string custom = ''custom''"

text \<open>The eight \<^verbatim>\<open>useState\<close> cells of the component.\<close>

record State =
  originalImage :: "string option"
  vectorSvg :: "string option"
  isProcessing :: bool
  params :: ProcessorParams
  presets :: "string \<rightharpoonup> Preset"
  selectedPreset :: PresetKey
  showAdvanced :: bool
  isDragging :: bool

text \<open>The initial values passed to \<^verbatim>\<open>useState\<close>.\<close>

definition initial :: State where
  "initial =
     \<lparr>originalImage = None, vectorSvg = None, isProcessing = False,
      params = DEFAULT_PARAMS, presets = Map.empty, selectedPreset = clean,
      showAdvanced = False, isDragging = False\<rparr>"

text \<open>Truthiness of a value of type \<^verbatim>\<open>string | null\<close>: null and the empty string are falsy.\<close>

fun truthy :: "string option \<Rightarrow> bool" where
  "truthy None = False"
| "truthy (Some s) = (s \<noteq> [])"

section \<open>Parameter store\<close>

text \<open>
  \<^verbatim>\<open>updateParam(key, value)\<close>:
  \<^verbatim>\<open>setParams((prev) => ({ ...prev, [key]: value })); setSelectedPreset('custom');\<close>
\<close>

definition updateParam :: "ParamKey \<Rightarrow> jsval \<Rightarrow> State \<Rightarrow> State" where
  "updateParam key v s =
     s\<lparr>params := (State.params s)(key \<mapsto> v), selectedPreset := custom\<rparr>"

text \<open>
  \<^verbatim>\<open>handlePresetChange(presetKey)\<close>: the selection is written first and always; the
  parameters are written only under the guard
  \<^verbatim>\<open>presetKey !== 'custom' && presets[presetKey]\<close>.
\<close>

definition handlePresetChange :: "PresetKey \<Rightarrow> State \<Rightarrow> State" where
  "handlePresetChange presetKey s =
     (let s1 = s\<lparr>selectedPreset := presetKey\<rparr> in
      if presetKey \<noteq> custom then
        (case presets s (key_string presetKey) of
           Some p \<Rightarrow> s1\<lparr>params := Preset.params p\<rparr>
         | None \<Rightarrow> s1)
      else s1)"

section \<open>Preset catalog\<close>

text \<open>
  How the \<^verbatim>\<open>fetch\<close> of \<^verbatim>\<open>/presets\<close> ends: an awaited call throws (network error, or a
  body that is not JSON), the response is not \<^verbatim>\<open>ok\<close>, or the response is \<^verbatim>\<open>ok\<close> and
  its body parses to a \<^verbatim>\<open>Record<string, Preset>\<close>.
\<close>

datatype PresetsOutcome = LoadThrew | LoadNotOk | LoadOk "string \<rightharpoonup> Preset"

text \<open>
  \<^verbatim>\<open>loadPresets\<close>: on an \<^verbatim>\<open>ok\<close> response \<^verbatim>\<open>setPresets(data)\<close>, and
  \<^verbatim>\<open>if (data.clean) setParams(data.clean.params)\<close>. Nothing else is written; the
  \<^verbatim>\<open>catch\<close> branch only logs.
\<close>

definition loadPresets :: "PresetsOutcome \<Rightarrow> State \<Rightarrow> State" where
  "loadPresets outcome s =
     (case outcome of
        LoadOk data \<Rightarrow>
          (let s1 = s\<lparr>presets := data\<rparr> in
           case data ''clean'' of
             Some p \<Rightarrow> s1\<lparr>params := Preset.params p\<rparr>
           | None \<Rightarrow> s1)
      | LoadNotOk \<Rightarrow> s
      | LoadThrew \<Rightarrow> s)"

section \<open>Image intake\<close>

text \<open>The part of a browser \<^verbatim>\<open>File\<close> that the handlers look at: its media type.\<close>

record File =
  type :: string
  bytes :: string

text \<open>
  \<^verbatim>\<open>processFile(file)\<close> starts a \<^verbatim>\<open>FileReader\<close>. The reader is the browser's, so it is a
  parameter here: \<open>read file\<close> is the \<^verbatim>\<open>event.target?.result\<close> that the \<^verbatim>\<open>onload\<close>
  callback sees (\<open>None\<close> when there is no result). The function below is the state
  change made by that callback:
  \<^verbatim>\<open>if (event.target?.result) { setOriginalImage(result); setVectorSvg(null); }\<close>
\<close>

definition processFile :: "(File \<Rightarrow> string option) \<Rightarrow> File \<Rightarrow> State \<Rightarrow> State" where
  "processFile read file s =
     (if truthy (read file)
      then s\<lparr>originalImage := read file, vectorSvg := None\<rparr>
      else s)"

text \<open>
  \<^verbatim>\<open>handleImageUpload\<close>: \<^verbatim>\<open>const file = e.target.files?.[0]; if (file) processFile(file);\<close>
  The argument is \<^verbatim>\<open>e.target.files\<close>, a list of files or null. The result is the state
  once the handler and the reader's callback have run.
\<close>

definition handleImageUpload ::
  "(File \<Rightarrow> string option) \<Rightarrow> File list option \<Rightarrow> State \<Rightarrow> State" where
  "handleImageUpload read files s =
     (case files of
        Some (file # rest) \<Rightarrow> processFile read file s
      | _ \<Rightarrow> s)"

definition handleDragOver :: "State \<Rightarrow> State" where
  "handleDragOver s = s\<lparr>isDragging := True\<rparr>"

definition handleDragLeave :: "State \<Rightarrow> State" where
  "handleDragLeave s = s\<lparr>isDragging := False\<rparr>"

text \<open>
  \<^verbatim>\<open>handleDrop\<close>: \<^verbatim>\<open>setIsDragging(false)\<close>, then
  \<^verbatim>\<open>if (file && file.type.startsWith('image/')) processFile(file);\<close>
\<close>

definition handleDrop ::
  "(File \<Rightarrow> string option) \<Rightarrow> File list option \<Rightarrow> State \<Rightarrow> State" where
  "handleDrop read files s =
     (let s1 = s\<lparr>isDragging := False\<rparr> in
      case files of
        Some (file # rest) \<Rightarrow>
          (if prefix ''image/'' (type file) then processFile read file s1 else s1)
      | _ \<Rightarrow> s1)"

text \<open>The remove button: \<^verbatim>\<open>onClick={() => { setOriginalImage(null); setVectorSvg(null); }}\<close>\<close>

definition clearImage :: "State \<Rightarrow> State" where
  "clearImage s = s\<lparr>originalImage := None, vectorSvg := None\<rparr>"

text \<open>The toggle of the advanced controls: \<^verbatim>\<open>setShowAdvanced(!showAdvanced)\<close>.\<close>

definition toggleAdvanced :: "State \<Rightarrow> State" where
  "toggleAdvanced s = s\<lparr>showAdvanced := \<not> showAdvanced s\<rparr>"

section \<open>Output sanitizer\<close>

subsection \<open>The regular expressions of \<^verbatim>\<open>cleanSvgResponse\<close> and their matcher\<close>

text \<open>
  The four patterns use literal characters, the negated class \<^verbatim>\<open>[^"]\<close> under a greedy
  star, and the class \<^verbatim>\<open>[\s\S]\<close> (every character) under a lazy star. A pattern is a
  sequence of items; each item is one atom, taken once or under a star. The engine
  matches code unit by code unit and every character named in the patterns is ASCII, so
  a text is a list of characters here and the width of a character plays no role.
\<close>

datatype atom = Chr char | NotChr char | AnyChr

datatype item = One atom | Greedy atom | Lazy atom

type_synonym regex = "item list"

fun atom_ok :: "atom \<Rightarrow> char \<Rightarrow> bool" where
  "atom_ok (Chr a) c = (c = a)"
| "atom_ok (NotChr a) c = (c \<noteq> a)"
| "atom_ok AnyChr c = True"

text \<open>
  The backtracking matcher, anchored at the start of the text: the length of the match
  that the regular-expression engine finds first there, if any. A greedy star tries the
  longer alternative first, a lazy star the shorter one.
\<close>

fun match_here :: "regex \<Rightarrow> string \<Rightarrow> nat option" where
  "match_here [] s = Some 0"
| "match_here (One a # r) [] = None"
| "match_here (One a # r) (c # cs) =
     (if atom_ok a c then map_option Suc (match_here r cs) else None)"
| "match_here (Greedy a # r) [] = match_here r []"
| "match_here (Greedy a # r) (c # cs) =
     (if atom_ok a c then
        (case match_here (Greedy a # r) cs of
           Some n \<Rightarrow> Some (Suc n)
         | None \<Rightarrow> match_here r (c # cs))
      else match_here r (c # cs))"
| "match_here (Lazy a # r) [] = match_here r []"
| "match_here (Lazy a # r) (c # cs) =
     (case match_here r (c # cs) of
        Some n \<Rightarrow> Some n
      | None \<Rightarrow>
          if atom_ok a c then map_option Suc (match_here (Lazy a # r) cs) else None)"

text \<open>
  \<^verbatim>\<open>text.replace(/r/g, rep)\<close> for a replacement without \<^verbatim>\<open>$\<close>: one scan from left to
  right. Where the pattern matches, the replacement is emitted and the scan goes on
  behind the match; elsewhere the character is copied. After an empty match the scan
  copies one character, as the engine does when it advances \<^verbatim>\<open>lastIndex\<close>.
\<close>

fun replace_all :: "regex \<Rightarrow> string \<Rightarrow> string \<Rightarrow> string" where
  "replace_all r rep [] = (case match_here r [] of Some n \<Rightarrow> rep | None \<Rightarrow> [])"
| "replace_all r rep (c # cs) =
     (case match_here r (c # cs) of
        None \<Rightarrow> c # replace_all r rep cs
      | Some 0 \<Rightarrow> rep @ c # replace_all r rep cs
      | Some (Suc n) \<Rightarrow> rep @ replace_all r rep (drop n cs))"

text \<open>A literal pattern, and the double quote character.\<close>

definition lit :: "string \<Rightarrow> regex" where
  "lit s = map (\<lambda>c. One (Chr c)) s"

definition dq :: char where
  "dq = CHR 0x22"

text \<open>\<^verbatim>\<open>/ns0:/g\<close>\<close>

definition re_ns0 :: regex where
  "re_ns0 = lit ''ns0:''"

text \<open>\<^verbatim>\<open>/xmlns:ns0="[^"]*"/g\<close>\<close>

definition re_xmlns :: regex where
  "re_xmlns = lit ''xmlns:ns0='' @ [One (Chr dq), Greedy (NotChr dq), One (Chr dq)]"

text \<open>\<^verbatim>\<open>/fill="#000000"/g\<close> and its replacement \<^verbatim>\<open>'fill="#ffffff"'\<close>\<close>

definition black_fill :: string where
  "black_fill = ''fill='' @ [dq] @ ''#000000'' @ [dq]"

definition white_fill :: string where
  "white_fill = ''fill='' @ [dq] @ ''#ffffff'' @ [dq]"

definition re_fill :: regex where
  "re_fill = lit black_fill"

text \<open>\<^verbatim>\<open>/<metadata>[\s\S]*?<\/metadata>/g\<close>\<close>

definition re_meta :: regex where
  "re_meta = lit ''<metadata>'' @ [Lazy AnyChr] @ lit ''</metadata>''"

subsection \<open>\<^verbatim>\<open>cleanSvgResponse\<close>\<close>

text \<open>The value of the variable \<^verbatim>\<open>clean\<close> after each of the four assignments.\<close>

definition clean_ns0 :: "string \<Rightarrow> string" where
  "clean_ns0 svgText = replace_all re_ns0 [] svgText"

definition clean_xmlns :: "string \<Rightarrow> string" where
  "clean_xmlns svgText = replace_all re_xmlns [] (clean_ns0 svgText)"

definition clean_fill :: "string \<Rightarrow> string" where
  "clean_fill svgText = replace_all re_fill white_fill (clean_xmlns svgText)"

definition cleanSvgResponse :: "string \<Rightarrow> string" where
  "cleanSvgResponse svgText = replace_all re_meta [] (clean_fill svgText)"

subsection \<open>What it means for a text to contain a pattern\<close>

text \<open>The pattern matches at some position of the text.\<close>

fun has_match :: "regex \<Rightarrow> string \<Rightarrow> bool" where
  "has_match r [] = (match_here r [] \<noteq> None)"
| "has_match r (c # cs) = (match_here r (c # cs) \<noteq> None \<or> has_match r cs)"

text \<open>
  A text is sanitized when it has no \<^verbatim>\<open>ns0:\<close> token, no \<^verbatim>\<open>xmlns:ns0="..."\<close> declaration,
  no black fill and no metadata block.
\<close>

definition sanitized :: "string \<Rightarrow> bool" where
  "sanitized s \<longleftrightarrow>
     \<not> has_match re_ns0 s \<and> \<not> has_match re_xmlns s
     \<and> \<not> has_match re_fill s \<and> \<not> has_match re_meta s"

text \<open>
  A removal joins the text before the match to the text behind it. \<open>delimited r bad prev s\<close>
  follows the scan of \<open>replace_all r\<close> over \<open>s\<close>, with \<open>prev\<close> the last character copied
  so far, and says that no removed match comes directly after a copied character from
  the list \<open>bad\<close>.
\<close>

fun delimited :: "regex \<Rightarrow> string \<Rightarrow> char option \<Rightarrow> string \<Rightarrow> bool" where
  "delimited r bad prev [] = True"
| "delimited r bad prev (c # cs) =
     (case match_here r (c # cs) of
        None \<Rightarrow> delimited r bad (Some c) cs
      | Some 0 \<Rightarrow> delimited r bad (Some c) cs
      | Some (Suc n) \<Rightarrow>
          (case prev of None \<Rightarrow> True | Some p \<Rightarrow> p \<notin> set bad)
          \<and> delimited r bad prev (drop n cs))"

text \<open>
  The characters that can continue a pattern across a join: every character of a
  pattern's literal parts except the last character of each part.
\<close>

definition bad_ns0 :: string where
  "bad_ns0 = ''ns0''"

definition bad_xmlns :: string where
  "bad_xmlns = bad_ns0 @ ''xmlns:ns0=''"

definition bad_meta :: string where
  "bad_meta = bad_xmlns @ ''fill='' @ [dq] @ ''#000000'' @ ''<metadata'' @ ''</metadata''"

text \<open>
  A markup text is well delimited when, in each of the three removing passes, no removed
  match directly follows such a character. The serializer's output is of this kind: a
  prefix \<^verbatim>\<open>ns0:\<close> follows \<^verbatim>\<open><\<close> or \<^verbatim>\<open>/\<close>, the declaration follows a space, the metadata
  element follows \<^verbatim>\<open>>\<close> or a line break.
\<close>

definition well_delimited :: "string \<Rightarrow> bool" where
  "well_delimited s \<longleftrightarrow>
     delimited re_ns0 bad_ns0 None s
     \<and> delimited re_xmlns bad_xmlns None (clean_ns0 s)
     \<and> delimited re_meta bad_meta None (clean_fill s)"







section \<open>Conversion orchestrator\<close>

text \<open>
  How the awaited calls of \<^verbatim>\<open>processImage\<close> end: one of them throws, the service answers
  with a status that is not \<^verbatim>\<open>ok\<close> (status and body text), or it answers \<^verbatim>\<open>ok\<close> with the
  markup.
\<close>

datatype VectorizeOutcome = Threw | NotOk nat string | Success string

text \<open>
  The multipart request: the blob of the image's data URL under \<^verbatim>\<open>file\<close>, and one form
  field per entry of the parameter object.
\<close>

record Request =
  file_field :: string
  form_fields :: ProcessorParams

text \<open>
  \<^verbatim>\<open>processImage\<close> closes over \<^verbatim>\<open>originalImage\<close> and \<^verbatim>\<open>params\<close> (its \<^verbatim>\<open>useCallback\<close>
  dependencies); they are arguments here. The part before the first \<^verbatim>\<open>await\<close>:
  \<^verbatim>\<open>if (!originalImage) return; setIsProcessing(true);\<close> and the request is built.
\<close>

definition processImage_start ::
  "string option \<Rightarrow> ProcessorParams \<Rightarrow> State \<Rightarrow> State \<times> Request option" where
  "processImage_start img ps s =
     (case img of
        None \<Rightarrow> (s, None)
      | Some url \<Rightarrow>
          if \<not> truthy (Some url) then (s, None)
          else (s\<lparr>isProcessing := True\<rparr>, Some \<lparr>file_field = url, form_fields = ps\<rparr>))"

text \<open>
  The part after the awaited calls, run on the state of that later moment: on success
  \<^verbatim>\<open>setVectorSvg(cleanSvgResponse(rawSvg))\<close>; the \<^verbatim>\<open>catch\<close> branch only logs; the
  \<^verbatim>\<open>finally\<close> branch runs \<^verbatim>\<open>setIsProcessing(false)\<close>.
\<close>

definition processImage_finish :: "VectorizeOutcome \<Rightarrow> State \<Rightarrow> State" where
  "processImage_finish outcome s =
     (case outcome of
        Success rawSvg \<Rightarrow>
          s\<lparr>vectorSvg := Some (cleanSvgResponse rawSvg), isProcessing := False\<rparr>
      | NotOk status errText \<Rightarrow> s\<lparr>isProcessing := False\<rparr>
      | Threw \<Rightarrow> s\<lparr>isProcessing := False\<rparr>)"

text \<open>A whole run with no other event between its two parts.\<close>

definition processImage ::
  "string option \<Rightarrow> ProcessorParams \<Rightarrow> VectorizeOutcome \<Rightarrow> State \<Rightarrow> State" where
  "processImage img ps outcome s =
     (case processImage_start img ps s of
        (s1, None) \<Rightarrow> s1
      | (s1, Some req) \<Rightarrow> processImage_finish outcome s1)"

section \<open>The operations of the screen\<close>

datatype Event =
  UpdateParam ParamKey jsval
  | PresetChange PresetKey
  | PresetsLoaded PresetsOutcome
  | ImageUpload "File list option"
  | DragOver
  | DragLeave
  | Drop "File list option"
  | ClearImage
  | ToggleAdvanced
  | ConversionStarted
  | ConversionFinished Request VectorizeOutcome

fun step :: "(File \<Rightarrow> string option) \<Rightarrow> Event \<Rightarrow> State \<Rightarrow> State" where
  "step read (UpdateParam key v) s = updateParam key v s"
| "step read (PresetChange presetKey) s = handlePresetChange presetKey s"
| "step read (PresetsLoaded outcome) s = loadPresets outcome s"
| "step read (ImageUpload files) s = handleImageUpload read files s"
| "step read DragOver s = handleDragOver s"
| "step read DragLeave s = handleDragLeave s"
| "step read (Drop files) s = handleDrop read files s"
| "step read ClearImage s = clearImage s"
| "step read ToggleAdvanced s = toggleAdvanced s"
| "step read ConversionStarted s =
     fst (processImage_start (originalImage s) (State.params s) s)"
| "step read (ConversionFinished req outcome) s = processImage_finish outcome s"

text \<open>
  The event of a completion names the request that the completing run had sent; the
  code, and so \<open>step\<close>, does not look at it.

  To say which image an output belongs to, the screen is followed together with a note
  that the code does not keep: the image whose conversion produced the vector output
  now on display. Only the successful completion of a conversion writes the note.
\<close>

record Tracked =
  shown :: State
  output_of :: "string option"

fun track :: "(File \<Rightarrow> string option) \<Rightarrow> Event \<Rightarrow> Tracked \<Rightarrow> Tracked" where
  "track read (ConversionFinished req (Success rawSvg)) t =
     \<lparr>shown = step read (ConversionFinished req (Success rawSvg)) (shown t),
      output_of = Some (file_field req)\<rparr>"
| "track read e t = \<lparr>shown = step read e (shown t), output_of = output_of t\<rparr>"

text \<open>
  Input and output match: a vector output on display was produced from the image on
  display.
\<close>

definition matched :: "Tracked \<Rightarrow> bool" where
  "matched t \<longleftrightarrow> (vectorSvg (shown t) \<noteq> None \<longrightarrow> output_of t = originalImage (shown t))"

section \<open>Debounce\<close>

text \<open>
  The effect
  \<^verbatim>\<open>const timer = setTimeout(() => { if (originalImage) processImage(); }, 500);\<close>
  \<^verbatim>\<open>return () => clearTimeout(timer);\<close>
  with dependencies \<^verbatim>\<open>[params, originalImage, processImage]\<close>. Time is counted in
  milliseconds. A pending timer keeps what its callback closes over.
\<close>

record Timer =
  timer_id :: nat
  due :: nat
  seen_image :: "string option"
  seen_params :: ProcessorParams

text \<open>
  The screen with its timers: the state cells, the clock, the timers that are set and
  have neither fired nor been cleared, the \<^verbatim>\<open>timer\<close> that the cleanup of the current
  effect holds, and the conversion requests started so far, each with its time.
\<close>

record Screen =
  cells :: State
  clock :: nat
  next_id :: nat
  pending :: "Timer list"
  effect_timer :: "nat option"
  started :: "(nat \<times> Request) list"

definition setTimeout_500 :: "Screen \<Rightarrow> Screen" where
  "setTimeout_500 w =
     w\<lparr>pending := pending w @
          [\<lparr>timer_id = next_id w, due = clock w + 500,
            seen_image = originalImage (cells w),
            seen_params = State.params (cells w)\<rparr>],
       effect_timer := Some (next_id w),
       next_id := Suc (next_id w)\<rparr>"

definition clearTimeout :: "nat \<Rightarrow> Screen \<Rightarrow> Screen" where
  "clearTimeout i w = w\<lparr>pending := filter (\<lambda>t. timer_id t \<noteq> i) (pending w)\<rparr>"

text \<open>The cleanup of the effect, and the effect itself.\<close>

definition effect_cleanup :: "Screen \<Rightarrow> Screen" where
  "effect_cleanup w = (case effect_timer w of None \<Rightarrow> w | Some i \<Rightarrow> clearTimeout i w)"

definition effect_run :: "Screen \<Rightarrow> Screen" where
  "effect_run w = setTimeout_500 w"

text \<open>The first render: the initial cells, and the effect runs once.\<close>

definition mounted :: Screen where
  "mounted =
     effect_run \<lparr>cells = initial, clock = 0, next_id = 0, pending = [],
                 effect_timer = None, started = []\<rparr>"

text \<open>
  A handler \<open>h\<close> changes \<^verbatim>\<open>params\<close> or \<^verbatim>\<open>originalImage\<close>: after the render the cleanup of
  the previous effect runs, then the effect.
\<close>

definition change :: "(State \<Rightarrow> State) \<Rightarrow> Screen \<Rightarrow> Screen" where
  "change h w = effect_run (effect_cleanup (w\<lparr>cells := h (cells w)\<rparr>))"

text \<open>
  A timer fires: \<^verbatim>\<open>if (originalImage) processImage();\<close> with the image and the
  parameters its callback closed over.
\<close>

definition fire :: "Screen \<Rightarrow> Timer \<Rightarrow> Screen" where
  "fire w t =
     (if truthy (seen_image t) then
        (case processImage_start (seen_image t) (seen_params t) (cells w) of
           (s1, Some req) \<Rightarrow> w\<lparr>cells := s1, started := started w @ [(due t, req)]\<rparr>
         | (s1, None) \<Rightarrow> w\<lparr>cells := s1\<rparr>)
      else w)"

text \<open>
  \<open>d\<close> milliseconds pass with no other event: the timers that fall due fire in the order
  of their due times, each at its due time.
\<close>

definition elapse :: "nat \<Rightarrow> Screen \<Rightarrow> Screen" where
  "elapse d w =
     (let now = clock w + d;
          ripe = sort_key due (filter (\<lambda>t. due t \<le> now) (pending w));
          rest = filter (\<lambda>t. \<not> due t \<le> now) (pending w)
      in (foldl fire (w\<lparr>pending := rest\<rparr>) ripe)\<lparr>clock := now\<rparr>)"

text \<open>At most one timer is pending, and it is the one the current cleanup would clear.\<close>

definition single_timer :: "Screen \<Rightarrow> bool" where
  "single_timer w \<longleftrightarrow>
     length (pending w) \<le> 1
     \<and> (\<forall>t \<in> set (pending w). effect_timer w = Some (timer_id t))"

section \<open>Example data\<close>

text \<open>A catalog as the service sends it, a picture file and a document file.\<close>

definition example_clean :: Preset where
  "example_clean =
     \<lparr>name = ''Clean'', description = ''Logos and line art'',
      params = DEFAULT_PARAMS(threshold \<mapsto> Num 140, turdsize \<mapsto> Num 12)\<rparr>"

definition example_photo :: Preset where
  "example_photo =
     \<lparr>name = ''Photo'', description = ''Photographs'',
      params = DEFAULT_PARAMS(denoise \<mapsto> Num 3, fill_holes \<mapsto> Bool True)\<rparr>"

definition example_catalog :: "string \<rightharpoonup> Preset" where
  "example_catalog = [''clean'' \<mapsto> example_clean, ''photo'' \<mapsto> example_photo]"

definition example_png :: File where
  "example_png = \<lparr>type = ''image/png'', bytes = ''PNG''\<rparr>"

definition example_pdf :: File where
  "example_pdf = \<lparr>type = ''application/pdf'', bytes = ''%PDF''\<rparr>"

definition example_jpg :: File where
  "example_jpg = \<lparr>type = ''image/jpeg'', bytes = ''JFIF''\<rparr>"

text \<open>A reader that delivers a data URL for every file, as \<^verbatim>\<open>readAsDataURL\<close> does.\<close>

definition example_read :: "File \<Rightarrow> string option" where
  "example_read f = Some (''data:'' @ type f @ '';base64,'' @ bytes f)"

text \<open>The request that a conversion of the example picture sends at startup.\<close>

definition example_request :: Request where
  "example_request =
     \<lparr>file_field = ''data:image/png;base64,PNG'', form_fields = DEFAULT_PARAMS\<rparr>"

text \<open>
  Markup as the service's serializer writes it, with the \<^verbatim>\<open>ns0\<close> prefix, its
  declaration, a metadata element and a black fill.
\<close>

definition example_svg :: string where
  "example_svg =
     ''<ns0:svg xmlns:ns0='' @ [dq] @ ''http://www.w3.org/2000/svg'' @ [dq]
     @ '' width='' @ [dq] @ ''8'' @ [dq] @ ''><ns0:metadata>Created by potrace</ns0:metadata>''
     @ ''<ns0:g fill='' @ [dq] @ ''#000000'' @ [dq] @ ''><ns0:path d='' @ [dq] @ ''M0 0z''
     @ [dq] @ ''/></ns0:g></ns0:svg>''"



text \<open>
  The screen one second after the example picture was chosen right after the first
  render: its conversion has started, no timer is pending.
\<close>

definition example_screen :: Screen where
  "example_screen =
     elapse 1000 (change (handleImageUpload example_read (Some [example_png])) mounted)"

section \<open>Results on the parameter store\<close>

text \<open>
  C1 (as amended). For every preset key other than "custom" that is an entry of the
  catalog, handlePresetChange replaces the whole parameter set by that entry's params and
  sets the selection to the key. For every other key (one that the catalog does not have,
  or "custom") the parameters and every other cell stay as they are, and the selection is
  still set to the key.
\<close>

theorem handlePresetChange_known_or_unknown:
  "(presetKey \<noteq> custom \<longrightarrow> presets s (key_string presetKey) = Some p \<longrightarrow>
      handlePresetChange presetKey s
        = s\<lparr>params := Preset.params p, selectedPreset := presetKey\<rparr>)
   \<and> (presetKey = custom \<or> presets s (key_string presetKey) = None \<longrightarrow>
      handlePresetChange presetKey s = s\<lparr>selectedPreset := presetKey\<rparr>)"
  by (auto simp: handlePresetChange_def Let_def)

text \<open>
  The theorem at work: with the example catalog loaded, "photo" is an entry and "laser"
  is not.
\<close>

theorem handlePresetChange_known_or_unknown_witness:
  "photo \<noteq> custom
   \<and> presets (loadPresets (LoadOk example_catalog) initial) (key_string photo)
       = Some example_photo
   \<and> handlePresetChange photo (loadPresets (LoadOk example_catalog) initial)
       = (loadPresets (LoadOk example_catalog) initial)
           \<lparr>params := Preset.params example_photo, selectedPreset := photo\<rparr>
   \<and> presets (loadPresets (LoadOk example_catalog) initial) (key_string laser) = None
   \<and> handlePresetChange laser (loadPresets (LoadOk example_catalog) initial)
       = (loadPresets (LoadOk example_catalog) initial)\<lparr>selectedPreset := laser\<rparr>"
proof -
  let ?s = "loadPresets (LoadOk example_catalog) initial"
  have known: "presets ?s (key_string photo) = Some example_photo"
    by (simp add: loadPresets_def example_catalog_def Let_def)
  have unknown: "presets ?s (key_string laser) = None"
    by (simp add: loadPresets_def example_catalog_def Let_def)
  show ?thesis
    using handlePresetChange_known_or_unknown [of photo ?s example_photo]
      handlePresetChange_known_or_unknown [of laser ?s example_photo]
      known unknown
    by simp
qed

text \<open>
  C1 as it was stated fails: before the catalog has arrived "photo" is not an entry, and
  selecting it is not a no-op, because the selection changes.
\<close>

theorem handlePresetChange_unknown_sets_selection:
  "presets initial (key_string photo) = None
   \<and> selectedPreset (handlePresetChange photo initial) \<noteq> selectedPreset initial"
  by (simp add: handlePresetChange_def initial_def)

text \<open>
  C2. updateParam writes the given value under the given property name, leaves every
  other property of the parameter set as it was, and sets the selection to "custom"
  whatever the value is; no other cell changes. A value of the property's type keeps the
  parameter set well typed.
\<close>

theorem updateParam_frame:
  "State.params (updateParam key v s) key = Some v
   \<and> (\<forall>k. k \<noteq> key \<longrightarrow> State.params (updateParam key v s) k = State.params s k)
   \<and> selectedPreset (updateParam key v s) = custom
   \<and> updateParam key v s
       = s\<lparr>params := State.params (updateParam key v s), selectedPreset := custom\<rparr>
   \<and> (well_typed (State.params s) \<longrightarrow> field_type_ok key v \<longrightarrow>
        well_typed (State.params (updateParam key v s)))"
  by (auto simp: updateParam_def well_typed_def split: option.splits)

lemma well_typed_DEFAULT_PARAMS: "well_typed DEFAULT_PARAMS"
  unfolding well_typed_def
proof
  fix k
  show "case DEFAULT_PARAMS k of None \<Rightarrow> k = show_debug | Some v \<Rightarrow> field_type_ok k v"
    by (cases k) (simp_all add: DEFAULT_PARAMS_def)
qed

text \<open>
  The theorem at work: the threshold is written with the value it already has. The
  parameter set is the same as before, and the selection is "custom" all the same.
\<close>

theorem updateParam_frame_witness:
  "denoise \<noteq> threshold
   \<and> State.params (updateParam threshold (Num 128) initial) denoise
       = State.params initial denoise
   \<and> State.params (updateParam threshold (Num 128) initial) = State.params initial
   \<and> selectedPreset initial = clean
   \<and> selectedPreset (updateParam threshold (Num 128) initial) = custom
   \<and> well_typed (State.params initial) \<and> field_type_ok threshold (Num 128)
   \<and> well_typed (State.params (updateParam threshold (Num 128) initial))"
proof -
  have same: "State.params (updateParam threshold (Num 128) initial) = State.params initial"
    by (auto simp: updateParam_def initial_def DEFAULT_PARAMS_def)
  have wt: "well_typed (State.params initial)"
    by (simp add: initial_def well_typed_DEFAULT_PARAMS)
  show ?thesis
    using updateParam_frame [of threshold "Num 128" initial] same wt
    by (simp add: initial_def)
qed

text \<open>
  C10. Selecting "custom" sets the selection to "custom" and changes nothing else,
  whatever the catalog holds: the parameter set is the one from before.
\<close>

theorem handlePresetChange_custom:
  "handlePresetChange custom s = s\<lparr>selectedPreset := custom\<rparr>
   \<and> State.params (handlePresetChange custom s) = State.params s"
  by (simp add: handlePresetChange_def)

section \<open>Results on the preset catalog\<close>

text \<open>
  C8 (as amended). When the load succeeds, the catalog is stored and, if it has an entry
  "clean", that entry's params become the current parameter set. The load never writes
  the selection: it stays what it was, which is "clean" only if the user has neither
  edited a field nor picked another preset before the load resolved. When the load
  fails nothing changes; at startup the catalog is then empty and the parameters are
  DEFAULT_PARAMS.
\<close>

theorem loadPresets_effect:
  "(data ''clean'' = Some p \<longrightarrow>
      loadPresets (LoadOk data) s = s\<lparr>presets := data, params := Preset.params p\<rparr>)
   \<and> (data ''clean'' = None \<longrightarrow> loadPresets (LoadOk data) s = s\<lparr>presets := data\<rparr>)
   \<and> selectedPreset (loadPresets outcome s) = selectedPreset s
   \<and> loadPresets LoadThrew s = s \<and> loadPresets LoadNotOk s = s
   \<and> presets (loadPresets LoadThrew initial) = Map.empty
   \<and> State.params (loadPresets LoadThrew initial) = DEFAULT_PARAMS
   \<and> selectedPreset (loadPresets (LoadOk data) initial) = clean"
  by (auto simp: loadPresets_def Let_def initial_def
      split: PresetsOutcome.splits option.splits)

text \<open>The theorem at work on the example catalog, loaded into the initial cells.\<close>

theorem loadPresets_effect_witness:
  "example_catalog ''clean'' = Some example_clean
   \<and> loadPresets (LoadOk example_catalog) initial
       = initial\<lparr>presets := example_catalog, params := Preset.params example_clean\<rparr>
   \<and> selectedPreset (loadPresets (LoadOk example_catalog) initial) = clean"
proof -
  have entry: "example_catalog ''clean'' = Some example_clean"
    by (simp add: example_catalog_def)
  show ?thesis
    using loadPresets_effect [of example_catalog example_clean initial "LoadOk example_catalog"]
      entry
    by (simp add: initial_def)
qed

text \<open>
  C8 as it was stated fails: the user moves the threshold before the load resolves; the
  load then replaces the parameters by those of "clean", and the selection is "custom",
  not "clean".
\<close>

theorem loadPresets_after_edit_keeps_custom:
  "example_catalog ''clean'' = Some example_clean
   \<and> State.params (loadPresets (LoadOk example_catalog)
        (updateParam threshold (Num 100) initial)) = Preset.params example_clean
   \<and> selectedPreset (loadPresets (LoadOk example_catalog)
        (updateParam threshold (Num 100) initial)) \<noteq> clean"
  by (simp add: loadPresets_def updateParam_def example_catalog_def Let_def)

section \<open>Results on image intake\<close>

lemma step_frame:
  assumes "\<forall>req rawSvg. e \<noteq> ConversionFinished req (Success rawSvg)"
  shows "(originalImage (step read e s) = originalImage s
          \<and> vectorSvg (step read e s) = vectorSvg s)
         \<or> vectorSvg (step read e s) = None"
proof (cases e)
  case (ConversionFinished req outcome)
  with assms show ?thesis
    by (cases outcome) (simp_all add: processImage_finish_def)
next
  case (ImageUpload files)
  then show ?thesis
    by (auto simp: handleImageUpload_def processFile_def split: option.splits list.splits)
next
  case (Drop files)
  then show ?thesis
    by (auto simp: handleDrop_def processFile_def Let_def split: option.splits list.splits)
next
  case (PresetChange presetKey)
  then show ?thesis
    by (auto simp: handlePresetChange_def Let_def split: option.splits)
next
  case (PresetsLoaded outcome)
  then show ?thesis
    by (auto simp: loadPresets_def Let_def split: option.splits PresetsOutcome.splits)
next
  case ConversionStarted
  then show ?thesis
    by (auto simp: processImage_start_def split: option.splits)
qed (simp_all add: updateParam_def handleDragOver_def handleDragLeave_def clearImage_def
      toggleAdvanced_def)

lemma track_other:
  assumes "\<forall>req rawSvg. e \<noteq> ConversionFinished req (Success rawSvg)"
  shows "track read e t = \<lparr>shown = step read e (shown t), output_of = output_of t\<rparr>"
proof (cases e)
  case (ConversionFinished req outcome)
  with assms show ?thesis by (cases outcome) simp_all
qed simp_all

lemma matched_kept:
  assumes e: "\<forall>req rawSvg. e \<noteq> ConversionFinished req (Success rawSvg)"
    and m: "matched t"
  shows "matched (track read e t)"
  using step_frame [OF e, of read "shown t"] m
  by (auto simp: matched_def track_other [OF e])

lemma example_start:
  "step example_read (ImageUpload (Some [example_png])) initial
     = initial\<lparr>originalImage := Some ''data:image/png;base64,PNG''\<rparr>"
  "processImage_start (Some ''data:image/png;base64,PNG'') DEFAULT_PARAMS
     (initial\<lparr>originalImage := Some ''data:image/png;base64,PNG''\<rparr>)
     = (initial\<lparr>originalImage := Some ''data:image/png;base64,PNG'', isProcessing := True\<rparr>,
        Some example_request)"
  by (simp_all add: handleImageUpload_def processFile_def example_read_def example_png_def
      initial_def processImage_start_def example_request_def)

text \<open>
  C5 (as amended). Whatever the state before, a file whose read delivers a result, taken
  in by selection or (when it reports an image type) by drop, sets originalImage to that
  result and leaves vectorSvg absent; the clear action empties both. Every operation
  other than the successful completion of a conversion either leaves originalImage and
  vectorSvg as they are or leaves vectorSvg absent, so it keeps input and output
  matched; so does the successful completion of a conversion that was requested for the
  image now on display. The successful completion of any conversion writes vectorSvg
  and leaves originalImage as it is, whatever image its request was made for.
\<close>

theorem intake_clears_output:
  "(truthy (read f) \<longrightarrow>
      originalImage (handleImageUpload read (Some (f # fs)) s) = read f
      \<and> vectorSvg (handleImageUpload read (Some (f # fs)) s) = None)
   \<and> (truthy (read f) \<longrightarrow> prefix ''image/'' (type f) \<longrightarrow>
      originalImage (handleDrop read (Some (f # fs)) s) = read f
      \<and> vectorSvg (handleDrop read (Some (f # fs)) s) = None)
   \<and> originalImage (clearImage s) = None \<and> vectorSvg (clearImage s) = None
   \<and> ((\<forall>req rawSvg. e \<noteq> ConversionFinished req (Success rawSvg)) \<longrightarrow>
        (originalImage (step read e s) = originalImage s
         \<and> vectorSvg (step read e s) = vectorSvg s)
        \<or> vectorSvg (step read e s) = None)
   \<and> ((\<forall>req rawSvg. e \<noteq> ConversionFinished req (Success rawSvg)) \<longrightarrow> matched t \<longrightarrow>
        matched (track read e t))
   \<and> (originalImage (shown t) = Some (file_field req) \<longrightarrow>
        matched (track read (ConversionFinished req (Success rawSvg)) t))
   \<and> vectorSvg (step read (ConversionFinished req (Success rawSvg)) s)
       = Some (cleanSvgResponse rawSvg)
   \<and> originalImage (step read (ConversionFinished req (Success rawSvg)) s)
       = originalImage s"
proof -
  have "matched (track read (ConversionFinished req (Success rawSvg)) t)"
    if "originalImage (shown t) = Some (file_field req)"
    using that by (simp add: matched_def processImage_finish_def)
  then show ?thesis
    using step_frame [of e read s] matched_kept [of e t read]
    by (simp add: handleImageUpload_def handleDrop_def processFile_def clearImage_def
        processImage_finish_def Let_def)
qed

text \<open>
  The theorem at work. The example picture is chosen and its conversion starts and
  completes: input and output match. Then another picture is dropped, which is not the
  completion of a conversion: the output is gone and the match is kept.
\<close>

theorem intake_clears_output_witness:
  "originalImage (shown \<lparr>shown = fst (processImage_start
        (Some ''data:image/png;base64,PNG'') DEFAULT_PARAMS
        (step example_read (ImageUpload (Some [example_png])) initial)),
      output_of = None\<rparr>) = Some (file_field example_request)
   \<and> matched (track example_read (ConversionFinished example_request (Success ''<svg/>''))
        \<lparr>shown = fst (processImage_start
            (Some ''data:image/png;base64,PNG'') DEFAULT_PARAMS
            (step example_read (ImageUpload (Some [example_png])) initial)),
          output_of = None\<rparr>)
   \<and> truthy (example_read example_jpg) \<and> prefix ''image/'' (type example_jpg)
   \<and> (\<forall>req rawSvg. Drop (Some [example_jpg]) \<noteq> ConversionFinished req (Success rawSvg))
   \<and> originalImage (handleDrop example_read (Some [example_jpg])
        (shown (track example_read (ConversionFinished example_request (Success ''<svg/>''))
          \<lparr>shown = fst (processImage_start
              (Some ''data:image/png;base64,PNG'') DEFAULT_PARAMS
              (step example_read (ImageUpload (Some [example_png])) initial)),
            output_of = None\<rparr>)))
       = example_read example_jpg
   \<and> vectorSvg (handleDrop example_read (Some [example_jpg])
        (shown (track example_read (ConversionFinished example_request (Success ''<svg/>''))
          \<lparr>shown = fst (processImage_start
              (Some ''data:image/png;base64,PNG'') DEFAULT_PARAMS
              (step example_read (ImageUpload (Some [example_png])) initial)),
            output_of = None\<rparr>)))
       = None
   \<and> matched (track example_read (Drop (Some [example_jpg]))
        (track example_read (ConversionFinished example_request (Success ''<svg/>''))
          \<lparr>shown = fst (processImage_start
              (Some ''data:image/png;base64,PNG'') DEFAULT_PARAMS
              (step example_read (ImageUpload (Some [example_png])) initial)),
            output_of = None\<rparr>))"
proof -
  let ?t0 = "\<lparr>shown = fst (processImage_start
        (Some ''data:image/png;base64,PNG'') DEFAULT_PARAMS
        (step example_read (ImageUpload (Some [example_png])) initial)),
      output_of = None\<rparr>"
  let ?t1 = "track example_read (ConversionFinished example_request (Success ''<svg/>'')) ?t0"
  have img: "originalImage (shown ?t0) = Some (file_field example_request)"
    unfolding example_start by (simp add: example_request_def)
  have m1: "matched ?t1"
    using intake_clears_output [where t = "?t0" and req = example_request
        and rawSvg = "''<svg/>''" and read = example_read] img
    by blast
  have r: "truthy (example_read example_jpg)"
    by (simp add: example_read_def)
  have ty: "prefix ''image/'' (type example_jpg)"
    by (simp add: example_jpg_def)
  have ev: "\<forall>req rawSvg. Drop (Some [example_jpg]) \<noteq> ConversionFinished req (Success rawSvg)"
    by simp
  note inst = intake_clears_output [where read = example_read and f = example_jpg
      and fs = "[]" and s = "shown ?t1" and e = "Drop (Some [example_jpg])" and t = "?t1"]
  from inst r ty
  have load: "originalImage (handleDrop example_read (Some [example_jpg]) (shown ?t1))
        = example_read example_jpg"
    "vectorSvg (handleDrop example_read (Some [example_jpg]) (shown ?t1)) = None"
    by blast+
  from inst ev m1 have m2: "matched (track example_read (Drop (Some [example_jpg])) ?t1)"
    by blast
  show ?thesis
    by (intro conjI img m1 r ty ev load m2)
qed

text \<open>
  C5 as it was stated fails. The example picture is chosen and its conversion starts.
  In the first run the user then drops another picture, in the second the user clears
  the picture; after that the conversion completes. In the first run the output of the
  first picture is on display with the second picture, in the second run with no
  picture.
\<close>

theorem late_completion_breaks_pairing:
  "snd (processImage_start (Some ''data:image/png;base64,PNG'') DEFAULT_PARAMS
      (step example_read (ImageUpload (Some [example_png])) initial)) = Some example_request
   \<and> matched (track example_read (Drop (Some [example_jpg]))
        (track example_read ConversionStarted
          (track example_read (ImageUpload (Some [example_png]))
            \<lparr>shown = initial, output_of = None\<rparr>)))
   \<and> originalImage (shown
        (track example_read (ConversionFinished example_request (Success ''<svg/>''))
          (track example_read (Drop (Some [example_jpg]))
            (track example_read ConversionStarted
              (track example_read (ImageUpload (Some [example_png]))
                \<lparr>shown = initial, output_of = None\<rparr>)))))
       = Some ''data:image/jpeg;base64,JFIF''
   \<and> output_of
        (track example_read (ConversionFinished example_request (Success ''<svg/>''))
          (track example_read (Drop (Some [example_jpg]))
            (track example_read ConversionStarted
              (track example_read (ImageUpload (Some [example_png]))
                \<lparr>shown = initial, output_of = None\<rparr>))))
       = Some ''data:image/png;base64,PNG''
   \<and> \<not> matched
        (track example_read (ConversionFinished example_request (Success ''<svg/>''))
          (track example_read (Drop (Some [example_jpg]))
            (track example_read ConversionStarted
              (track example_read (ImageUpload (Some [example_png]))
                \<lparr>shown = initial, output_of = None\<rparr>))))
   \<and> matched (track example_read ClearImage
        (track example_read ConversionStarted
          (track example_read (ImageUpload (Some [example_png]))
            \<lparr>shown = initial, output_of = None\<rparr>)))
   \<and> originalImage (shown
        (track example_read (ConversionFinished example_request (Success ''<svg/>''))
          (track example_read ClearImage
            (track example_read ConversionStarted
              (track example_read (ImageUpload (Some [example_png]))
                \<lparr>shown = initial, output_of = None\<rparr>))))) = None
   \<and> \<not> matched
        (track example_read (ConversionFinished example_request (Success ''<svg/>''))
          (track example_read ClearImage
            (track example_read ConversionStarted
              (track example_read (ImageUpload (Some [example_png]))
                \<lparr>shown = initial, output_of = None\<rparr>))))"
  by (simp add: example_start matched_def processImage_finish_def clearImage_def
      handleDrop_def processFile_def example_read_def example_jpg_def example_request_def
      initial_def processImage_start_def handleImageUpload_def example_png_def Let_def)

text \<open>
  C6, at the input where the code departs from it: a document file chosen in the file
  dialog is taken in, although a drop of the same file is ignored.
\<close>

theorem handleImageUpload_takes_non_image:
  "\<not> prefix ''image/'' (type example_pdf)
   \<and> originalImage (handleImageUpload example_read (Some [example_pdf]) initial)
       = Some ''data:application/pdf;base64,%PDF''
   \<and> handleImageUpload example_read (Some [example_pdf]) initial \<noteq> initial
   \<and> handleDrop example_read (Some [example_pdf]) initial = initial"
  by (simp add: handleImageUpload_def handleDrop_def processFile_def example_read_def
      example_pdf_def initial_def)

section \<open>Results on the conversion orchestrator\<close>

text \<open>
  C7. A run of processImage that has an image sets isProcessing before the request goes
  out; a run without an image sets nothing and sends nothing. Whatever the outcome
  (success, a status that is not ok, an exception) isProcessing is false afterwards, and
  on a failure nothing else changes: vectorSvg keeps its value.
\<close>

theorem processImage_flag:
  "(truthy img \<longrightarrow>
      isProcessing (fst (processImage_start img ps s))
      \<and> snd (processImage_start img ps s) \<noteq> None
      \<and> \<not> isProcessing (processImage img ps outcome s))
   \<and> (\<not> truthy img \<longrightarrow> processImage_start img ps s = (s, None))
   \<and> \<not> isProcessing (processImage_finish outcome t)
   \<and> ((\<forall>rawSvg. outcome \<noteq> Success rawSvg) \<longrightarrow>
        processImage_finish outcome t = t\<lparr>isProcessing := False\<rparr>
        \<and> vectorSvg (processImage_finish outcome t) = vectorSvg t
        \<and> vectorSvg (processImage img ps outcome s) = vectorSvg s)"
  by (cases outcome; cases img)
    (auto simp: processImage_def processImage_start_def processImage_finish_def)

text \<open>The theorem at work: the service answers 500 while an older output is on display.\<close>

theorem processImage_flag_witness:
  "truthy (Some ''data:image/png;base64,PNG'')
   \<and> (\<forall>rawSvg. NotOk 500 ''boom'' \<noteq> Success rawSvg)
   \<and> isProcessing (fst (processImage_start (Some ''data:image/png;base64,PNG'')
        DEFAULT_PARAMS (initial\<lparr>vectorSvg := Some ''<svg/>''\<rparr>)))
   \<and> \<not> isProcessing (processImage (Some ''data:image/png;base64,PNG'') DEFAULT_PARAMS
        (NotOk 500 ''boom'') (initial\<lparr>vectorSvg := Some ''<svg/>''\<rparr>))
   \<and> vectorSvg (processImage (Some ''data:image/png;base64,PNG'') DEFAULT_PARAMS
        (NotOk 500 ''boom'') (initial\<lparr>vectorSvg := Some ''<svg/>''\<rparr>)) = Some ''<svg/>''"
  using processImage_flag [of "Some ''data:image/png;base64,PNG''" DEFAULT_PARAMS
      "initial\<lparr>vectorSvg := Some ''<svg/>''\<rparr>" "NotOk 500 ''boom''"
      "initial\<lparr>vectorSvg := Some ''<svg/>''\<rparr>"]
  by simp

section \<open>Results on the output sanitizer\<close>

subsection \<open>What the matcher finds\<close>

lemma match_here_lit_append:
  "match_here (lit p @ r) s \<noteq> None \<longleftrightarrow> (\<exists>y. s = p @ y \<and> match_here r y \<noteq> None)"
proof (induction p arbitrary: s)
  case Nil
  show ?case by (simp add: lit_def)
next
  case (Cons a p)
  show ?case
  proof (cases s)
    case Nil
    then show ?thesis by (simp add: lit_def)
  next
    case (Cons c cs)
    have "match_here (lit (a # p) @ r) (c # cs)
            = (if c = a then map_option Suc (match_here (lit p @ r) cs) else None)"
      by (simp add: lit_def)
    then show ?thesis
      using Cons.IH [of cs] Cons by auto
  qed
qed

lemma match_here_lit:
  "match_here (lit p) s = (if prefix p s then Some (length p) else None)"
proof (induction p arbitrary: s)
  case Nil
  show ?case by (simp add: lit_def)
next
  case (Cons a p)
  have "match_here (lit (a # p)) s
          = (case s of [] \<Rightarrow> None
             | c # cs \<Rightarrow> if c = a then map_option Suc (match_here (lit p) cs) else None)"
    by (cases s) (simp_all add: lit_def)
  then show ?case
    by (cases s) (auto simp: Cons.IH)
qed

lemma greedy_quote: "match_here [Greedy (NotChr q), One (Chr q)] y \<noteq> None \<longleftrightarrow> q \<in> set y"
  by (induction y) (auto split: option.splits)

lemma lazy_lit: "match_here (Lazy AnyChr # lit p) y \<noteq> None \<longleftrightarrow> has_match (lit p) y"
  by (induction y) (auto split: option.splits simp: match_here_lit)

lemma match_xmlns:
  "match_here re_xmlns s \<noteq> None \<longleftrightarrow>
     (\<exists>y. s = ''xmlns:ns0='' @ dq # y \<and> dq \<in> set y)"
proof -
  have "match_here [One (Chr dq), Greedy (NotChr dq), One (Chr dq)] t \<noteq> None
      \<longleftrightarrow> (\<exists>y. t = dq # y \<and> dq \<in> set y)" for t
    using greedy_quote [of dq] by (cases t) auto
  then show ?thesis
    unfolding re_xmlns_def match_here_lit_append by auto
qed

lemma match_meta:
  "match_here re_meta s \<noteq> None \<longleftrightarrow>
     (\<exists>y. s = ''<metadata>'' @ y \<and> has_match (lit ''</metadata>'') y)"
  unfolding re_meta_def match_here_lit_append
  using lazy_lit by auto

lemma match_One_pos: "match_here (One a # r) s \<noteq> Some 0"
  by (cases s) auto

lemma no_empty_match:
  "match_here re_ns0 s \<noteq> Some 0" "match_here re_xmlns s \<noteq> Some 0"
  "match_here re_fill s \<noteq> Some 0" "match_here re_meta s \<noteq> Some 0"
  by (simp_all add: re_ns0_def re_xmlns_def re_fill_def re_meta_def lit_def black_fill_def
      match_One_pos)

lemma has_match_suffix:
  "has_match q s \<longleftrightarrow> (\<exists>t. suffix t s \<and> match_here q t \<noteq> None)"
proof (induction s)
  case Nil
  show ?case by simp
next
  case (Cons c cs)
  show ?case
    by (auto simp: Cons.IH suffix_Cons)
qed

lemma replace_all_no_match: "\<not> has_match r s \<Longrightarrow> replace_all r rep s = s"
  by (induction s) auto

subsection \<open>A pattern in the output of a removing pass comes from its input\<close>

text \<open>
  When the removed matches are delimited, a match of a pattern in the output of a
  removing pass lies in text that the pass copied in one piece, so the input has that
  match too, at a position where the removed pattern does not match.
\<close>

lemma delimited_weaken: "delimited r bad prev s \<Longrightarrow> delimited r bad None s"
proof (induction "length s" arbitrary: s prev rule: less_induct)
  case less
  show ?case
  proof (cases s)
    case Nil
    then show ?thesis by simp
  next
    case (Cons c cs)
    show ?thesis
    proof (cases "match_here r (c # cs)")
      case None
      with less.prems Cons show ?thesis by simp
    next
      case (Some m)
      show ?thesis
      proof (cases m)
        case 0
        with less.prems Cons Some show ?thesis by simp
      next
        case (Suc n)
        have "length (drop n cs) < length s" using Cons by simp
        moreover have "delimited r bad prev (drop n cs)"
          using less.prems Cons Some Suc by simp
        ultimately have "delimited r bad None (drop n cs)" by (rule less.hyps)
        then show ?thesis using Cons Some Suc by simp
      qed
    qed
  qed
qed

lemma set_removed: "set (replace_all r [] s) \<subseteq> set s"
proof (induction "length s" arbitrary: s rule: less_induct)
  case less
  show ?case
  proof (cases s)
    case Nil
    then show ?thesis by (simp split: option.splits)
  next
    case (Cons c cs)
    show ?thesis
    proof (cases "match_here r (c # cs)")
      case None
      then show ?thesis using less.hyps [of cs] Cons by auto
    next
      case (Some m)
      show ?thesis
      proof (cases m)
        case 0
        then show ?thesis using less.hyps [of cs] Cons Some by auto
      next
        case (Suc n)
        have "set (replace_all r [] (drop n cs)) \<subseteq> set (drop n cs)"
          using less.hyps [of "drop n cs"] Cons by simp
        also have "\<dots> \<subseteq> set cs" by (rule set_drop_subset)
        finally show ?thesis using Cons Some Suc by auto
      qed
    qed
  qed
qed

lemma kept_prefix:
  assumes ne: "\<And>t. match_here r t \<noteq> Some 0"
  shows "delimited r bad (Some x) t \<Longrightarrow> set (butlast (x # w)) \<subseteq> set bad \<Longrightarrow>
         prefix w (replace_all r [] t) \<Longrightarrow>
         \<exists>y. t = w @ y \<and> replace_all r [] t = w @ replace_all r [] y
              \<and> delimited r bad None y"
proof (induction w arbitrary: x t)
  case Nil
  then show ?case using delimited_weaken by auto
next
  case (Cons d w)
  from Cons.prems(2) have bad: "x \<in> set bad" and rest: "set (butlast (d # w)) \<subseteq> set bad"
    by auto
  show ?case
  proof (cases t)
    case Nil
    with Cons.prems(3) show ?thesis by (simp split: option.splits)
  next
    case t: (Cons e t')
    show ?thesis
    proof (cases "match_here r (e # t')")
      case None
      with Cons.prems(3) t have de: "d = e" and pre: "prefix w (replace_all r [] t')"
        by auto
      from Cons.prems(1) t None have "delimited r bad (Some e) t'" by simp
      from Cons.IH [OF this [folded de] rest pre]
      obtain y where "t' = w @ y" "replace_all r [] t' = w @ replace_all r [] y"
        "delimited r bad None y" by blast
      then show ?thesis using t None de by auto
    next
      case (Some m)
      show ?thesis
      proof (cases m)
        case 0
        with Some ne show ?thesis by blast
      next
        case (Suc n)
        with Cons.prems(1) t Some bad show ?thesis by simp
      qed
    qed
  qed
qed

lemma removal_origin:
  assumes ne: "\<And>t. match_here r t \<noteq> Some 0"
    and base: "match_here q [] = None"
    and head: "\<And>c cs. delimited r bad (Some c) cs \<Longrightarrow> match_here r (c # cs) = None \<Longrightarrow>
                 match_here q (c # replace_all r [] cs) \<noteq> None \<Longrightarrow>
                 match_here q (c # cs) \<noteq> None"
  shows "delimited r bad prev s \<Longrightarrow> has_match q (replace_all r [] s) \<Longrightarrow>
         \<exists>t. suffix t s \<and> match_here r t = None \<and> match_here q t \<noteq> None"
proof (induction "length s" arbitrary: s prev rule: less_induct)
  case less
  show ?case
  proof (cases s)
    case Nil
    with less.prems(2) base show ?thesis by (simp split: option.splits)
  next
    case (Cons c cs)
    show ?thesis
    proof (cases "match_here r (c # cs)")
      case None
      from less.prems(1) Cons None have del: "delimited r bad (Some c) cs" by simp
      from less.prems(2) Cons None
      consider "match_here q (c # replace_all r [] cs) \<noteq> None"
        | "has_match q (replace_all r [] cs)" by auto
      then show ?thesis
      proof cases
        case 1
        from head [OF del None 1] have "match_here q (c # cs) \<noteq> None" .
        with None Cons show ?thesis by blast
      next
        case 2
        from less.hyps [OF _ del 2] Cons
        obtain t where "suffix t cs" "match_here r t = None" "match_here q t \<noteq> None"
          by auto
        then show ?thesis using Cons by (auto simp: suffix_Cons)
      qed
    next
      case (Some m)
      show ?thesis
      proof (cases m)
        case 0
        with Some ne show ?thesis by blast
      next
        case (Suc n)
        have len: "length (drop n cs) < length s" using Cons by simp
        have del: "delimited r bad prev (drop n cs)"
          using less.prems(1) Cons Some Suc by simp
        have hm: "has_match q (replace_all r [] (drop n cs))"
          using less.prems(2) Cons Some Suc by simp
        from less.hyps [OF len del hm]
        obtain t where t: "suffix t (drop n cs)" "match_here r t = None"
          "match_here q t \<noteq> None" by auto
        from t(1) have "suffix t (c # cs)"
          by (meson suffix_drop suffix_order.trans suffix_ConsI)
        with t show ?thesis using Cons by blast
      qed
    qed
  qed
qed

lemma head_lit:
  assumes ne: "\<And>t. match_here r t \<noteq> Some 0"
    and bad: "set (butlast p) \<subseteq> set bad"
    and del: "delimited r bad (Some c) cs"
    and m: "match_here (lit p) (c # replace_all r [] cs) \<noteq> None"
  shows "match_here (lit p) (c # cs) \<noteq> None"
proof (cases p)
  case Nil
  then show ?thesis by (simp add: lit_def)
next
  case (Cons a w)
  from m have "prefix p (c # replace_all r [] cs)"
    by (simp add: match_here_lit split: if_splits)
  with Cons have ac: "a = c" and pre: "prefix w (replace_all r [] cs)" by auto
  from bad Cons ac have "set (butlast (c # w)) \<subseteq> set bad" by simp
  from kept_prefix [OF ne del this pre] obtain y where "cs = w @ y" by blast
  then show ?thesis using Cons ac by (simp add: match_here_lit)
qed

lemma lit_origin:
  assumes ne: "\<And>t. match_here r t \<noteq> Some 0"
    and p: "p \<noteq> []" and bad: "set (butlast p) \<subseteq> set bad"
    and del: "delimited r bad prev s"
    and hm: "has_match (lit p) (replace_all r [] s)"
  shows "\<exists>t. suffix t s \<and> match_here r t = None \<and> match_here (lit p) t \<noteq> None"
proof (rule removal_origin [OF ne _ _ del hm])
  show "match_here (lit p) [] = None" using p by (simp add: match_here_lit)
  show "match_here (lit p) (c # cs) \<noteq> None"
    if "delimited r bad (Some c) cs" "match_here (lit p) (c # replace_all r [] cs) \<noteq> None"
    for c cs
    using head_lit [OF ne bad that] .
qed

lemma xmlns_origin:
  assumes ne: "\<And>t. match_here r t \<noteq> Some 0"
    and bad: "set ''xmlns:ns0='' \<subseteq> set bad"
    and del: "delimited r bad prev s"
    and hm: "has_match re_xmlns (replace_all r [] s)"
  shows "\<exists>t. suffix t s \<and> match_here r t = None \<and> match_here re_xmlns t \<noteq> None"
proof (rule removal_origin [OF ne _ _ del hm])
  show "match_here re_xmlns [] = None"
    by (simp add: re_xmlns_def lit_def)
  fix c cs
  assume d: "delimited r bad (Some c) cs"
    and m: "match_here re_xmlns (c # replace_all r [] cs) \<noteq> None"
  from m obtain y' where y': "c # replace_all r [] cs = ''xmlns:ns0='' @ dq # y'" "dq \<in> set y'"
    unfolding match_xmlns by blast
  then have c: "c = CHR ''x''" and pre: "prefix (''mlns:ns0='' @ [dq]) (replace_all r [] cs)"
    by (auto simp: prefix_def)
  have "set (butlast (c # ''mlns:ns0='' @ [dq])) \<subseteq> set bad"
    using bad c by simp
  from kept_prefix [OF ne d this pre]
  obtain y where y: "cs = (''mlns:ns0='' @ [dq]) @ y"
    "replace_all r [] cs = (''mlns:ns0='' @ [dq]) @ replace_all r [] y" by blast
  with y' have "y' = replace_all r [] y" by simp
  with y'(2) set_removed [of r y] have "dq \<in> set y" by auto
  with y(1) c show "match_here re_xmlns (c # cs) \<noteq> None"
    unfolding match_xmlns by simp
qed

lemma meta_origin:
  assumes ne: "\<And>t. match_here r t \<noteq> Some 0"
    and bad: "set ''</metadata'' \<subseteq> set bad"
    and del: "delimited r bad prev s"
    and hm: "has_match re_meta (replace_all r [] s)"
  shows "\<exists>t. suffix t s \<and> match_here r t = None \<and> match_here re_meta t \<noteq> None"
proof (rule removal_origin [OF ne _ _ del hm])
  show "match_here re_meta [] = None"
    by (simp add: re_meta_def lit_def)
  fix c cs
  assume d: "delimited r bad (Some c) cs"
    and m: "match_here re_meta (c # replace_all r [] cs) \<noteq> None"
  from m obtain y' where y': "c # replace_all r [] cs = ''<metadata>'' @ y'"
    "has_match (lit ''</metadata>'') y'"
    unfolding match_meta by blast
  then have c: "c = CHR ''<''" and pre: "prefix ''metadata>'' (replace_all r [] cs)"
    by (auto simp: prefix_def)
  have "set (butlast (c # ''metadata>'')) \<subseteq> set bad"
    using bad c by simp
  from kept_prefix [OF ne d this pre]
  obtain y where y: "cs = ''metadata>'' @ y"
    "replace_all r [] cs = ''metadata>'' @ replace_all r [] y"
    "delimited r bad None y" by blast
  with y' have "has_match (lit ''</metadata>'') (replace_all r [] y)" by simp
  from lit_origin [OF ne _ _ y(3) this] bad
  obtain t where "suffix t y" "match_here (lit ''</metadata>'') t \<noteq> None" by auto
  then have "has_match (lit ''</metadata>'') y"
    unfolding has_match_suffix by blast
  with y(1) c show "match_here re_meta (c # cs) \<noteq> None"
    unfolding match_meta by simp
qed

subsection \<open>The fill pass\<close>

lemma match_fill: "match_here re_fill t = (if prefix black_fill t then Some 14 else None)"
  by (simp add: re_fill_def match_here_lit black_fill_def)

lemma replace_fill_Cons:
  "replace_all re_fill white_fill (c # cs) =
     (if prefix black_fill (c # cs)
      then white_fill @ replace_all re_fill white_fill (drop 13 cs)
      else c # replace_all re_fill white_fill cs)"
  by (simp add: match_fill eval_nat_numeral)

lemma fill_kept_prefix:
  "CHR ''f'' \<notin> set w \<Longrightarrow> prefix w (replace_all re_fill white_fill t) \<Longrightarrow>
   \<exists>y. t = w @ y \<and> replace_all re_fill white_fill t = w @ replace_all re_fill white_fill y"
proof (induction w arbitrary: t)
  case Nil
  then show ?case by simp
next
  case (Cons d w)
  show ?case
  proof (cases t)
    case Nil
    with Cons.prems show ?thesis by (simp add: match_fill black_fill_def)
  next
    case t: (Cons e t')
    show ?thesis
    proof (cases "prefix black_fill (e # t')")
      case True
      with Cons.prems(2) t
      have "prefix (d # w) (white_fill @ replace_all re_fill white_fill (drop 13 t'))"
        by (simp add: replace_fill_Cons del: replace_all.simps)
      then have "d = CHR ''f''" by (simp add: white_fill_def)
      with Cons.prems(1) show ?thesis by simp
    next
      case False
      with Cons.prems t have de: "d = e"
        and pre: "prefix w (replace_all re_fill white_fill t')"
        by (auto simp: replace_fill_Cons simp del: replace_all.simps)
      from Cons.prems(1) have "CHR ''f'' \<notin> set w" by simp
      from Cons.IH [OF this pre] show ?thesis using t False de
        by (auto simp: replace_fill_Cons simp del: replace_all.simps)
    qed
  qed
qed

lemma quote_fill: "dq \<in> set (replace_all re_fill white_fill s) \<Longrightarrow> dq \<in> set s"
proof (induction "length s" arbitrary: s rule: less_induct)
  case less
  show ?case
  proof (cases s)
    case Nil
    with less.prems show ?thesis by (simp add: match_fill black_fill_def)
  next
    case (Cons c cs)
    show ?thesis
    proof (cases "prefix black_fill (c # cs)")
      case True
      then have "set black_fill \<subseteq> set (c # cs)" by (rule set_mono_prefix)
      then show ?thesis using Cons by (auto simp: black_fill_def)
    next
      case False
      with less.prems Cons have "dq = c \<or> dq \<in> set (replace_all re_fill white_fill cs)"
        by (simp add: replace_fill_Cons del: replace_all.simps)
      then show ?thesis using less.hyps [of cs] Cons by auto
    qed
  qed
qed

lemma fill_origin:
  assumes base: "match_here q [] = None"
    and head: "\<And>c cs. \<not> prefix black_fill (c # cs) \<Longrightarrow>
                 match_here q (c # replace_all re_fill white_fill cs) \<noteq> None \<Longrightarrow>
                 match_here q (c # cs) \<noteq> None"
    and white: "\<And>y. has_match q (white_fill @ y) \<Longrightarrow> has_match q y"
  shows "has_match q (replace_all re_fill white_fill s) \<Longrightarrow>
         \<exists>t. suffix t s \<and> \<not> prefix black_fill t \<and> match_here q t \<noteq> None"
proof (induction "length s" arbitrary: s rule: less_induct)
  case less
  show ?case
  proof (cases s)
    case Nil
    with less.prems base show ?thesis by (simp add: match_fill black_fill_def)
  next
    case (Cons c cs)
    show ?thesis
    proof (cases "prefix black_fill (c # cs)")
      case True
      with less.prems Cons
      have "has_match q (white_fill @ replace_all re_fill white_fill (drop 13 cs))"
        by (simp add: replace_fill_Cons del: replace_all.simps)
      then have hm: "has_match q (replace_all re_fill white_fill (drop 13 cs))" by (rule white)
      have "length (drop 13 cs) < length s" using Cons by simp
      from less.hyps [OF this hm]
      obtain t where t: "suffix t (drop 13 cs)" "\<not> prefix black_fill t"
        "match_here q t \<noteq> None" by auto
      from t(1) have "suffix t (c # cs)"
        by (meson suffix_drop suffix_order.trans suffix_ConsI)
      with t Cons show ?thesis by blast
    next
      case False
      with less.prems Cons
      consider "match_here q (c # replace_all re_fill white_fill cs) \<noteq> None"
        | "has_match q (replace_all re_fill white_fill cs)"
        by (auto simp: replace_fill_Cons simp del: replace_all.simps)
      then show ?thesis
      proof cases
        case 1
        from head [OF False 1] False Cons show ?thesis by blast
      next
        case 2
        from less.hyps [OF _ 2] Cons
        obtain t where "suffix t cs" "\<not> prefix black_fill t" "match_here q t \<noteq> None"
          by auto
        then show ?thesis using Cons by (auto simp: suffix_Cons)
      qed
    qed
  qed
qed

lemma fill_lit_origin:
  assumes p: "p \<noteq> []" and f: "CHR ''f'' \<notin> set (tl p)"
    and white: "\<And>y. has_match (lit p) (white_fill @ y) \<Longrightarrow> has_match (lit p) y"
    and hm: "has_match (lit p) (replace_all re_fill white_fill s)"
  shows "\<exists>t. suffix t s \<and> \<not> prefix black_fill t \<and> match_here (lit p) t \<noteq> None"
proof (rule fill_origin [OF _ _ white hm])
  show "match_here (lit p) [] = None" using p by (simp add: match_here_lit)
  fix c cs
  assume "match_here (lit p) (c # replace_all re_fill white_fill cs) \<noteq> None"
  then have "prefix p (c # replace_all re_fill white_fill cs)"
    by (simp add: match_here_lit split: if_splits)
  with p obtain w where w: "p = c # w" "prefix w (replace_all re_fill white_fill cs)"
    by (cases p) auto
  with f fill_kept_prefix [of w cs] obtain y where "cs = w @ y" by auto
  with w show "match_here (lit p) (c # cs) \<noteq> None" by (simp add: match_here_lit)
qed

lemma white_ns0: "has_match re_ns0 (white_fill @ y) \<Longrightarrow> has_match re_ns0 y"
  by (simp add: white_fill_def re_ns0_def lit_def dq_def)

lemma white_xmlns: "has_match re_xmlns (white_fill @ y) \<Longrightarrow> has_match re_xmlns y"
  by (simp add: white_fill_def re_xmlns_def lit_def dq_def)

lemma white_fill_fill: "has_match re_fill (white_fill @ y) \<Longrightarrow> has_match re_fill y"
  by (simp add: white_fill_def black_fill_def re_fill_def lit_def dq_def)



subsection \<open>The four passes in sequence\<close>

lemma ns0_removed:
  assumes "delimited re_ns0 bad_ns0 None s"
  shows "\<not> has_match re_ns0 (clean_ns0 s)"
proof
  assume "has_match re_ns0 (clean_ns0 s)"
  then have "has_match (lit ''ns0:'') (replace_all re_ns0 [] s)"
    by (simp add: clean_ns0_def re_ns0_def)
  from lit_origin [OF no_empty_match(1) _ _ assms this]
  obtain t where "match_here re_ns0 t = None" "match_here (lit ''ns0:'') t \<noteq> None"
    by (auto simp: bad_ns0_def)
  then show False by (simp add: re_ns0_def)
qed

lemma xmlns_removed:
  assumes del: "delimited re_xmlns bad_xmlns None s"
    and ns0: "\<not> has_match re_ns0 s"
  shows "\<not> has_match re_ns0 (replace_all re_xmlns [] s)"
    and "\<not> has_match re_xmlns (replace_all re_xmlns [] s)"
proof -
  show "\<not> has_match re_ns0 (replace_all re_xmlns [] s)"
  proof
    assume "has_match re_ns0 (replace_all re_xmlns [] s)"
    then have "has_match (lit ''ns0:'') (replace_all re_xmlns [] s)"
      by (simp add: re_ns0_def)
    from lit_origin [OF no_empty_match(2) _ _ del this]
    obtain t where "suffix t s" "match_here (lit ''ns0:'') t \<noteq> None"
      by (auto simp: bad_xmlns_def bad_ns0_def)
    with ns0 show False unfolding has_match_suffix re_ns0_def by blast
  qed
  show "\<not> has_match re_xmlns (replace_all re_xmlns [] s)"
  proof
    assume "has_match re_xmlns (replace_all re_xmlns [] s)"
    from xmlns_origin [OF no_empty_match(2) _ del this]
    show False by (auto simp: bad_xmlns_def)
  qed
qed

lemma fill_replaced:
  shows "\<not> has_match re_fill (replace_all re_fill white_fill s)"
    and "\<not> has_match re_ns0 s \<Longrightarrow> \<not> has_match re_ns0 (replace_all re_fill white_fill s)"
    and "\<not> has_match re_xmlns s \<Longrightarrow> \<not> has_match re_xmlns (replace_all re_fill white_fill s)"
proof -
  show "\<not> has_match re_fill (replace_all re_fill white_fill s)"
  proof
    assume "has_match re_fill (replace_all re_fill white_fill s)"
    then have "has_match (lit black_fill) (replace_all re_fill white_fill s)"
      by (simp add: re_fill_def)
    from fill_lit_origin [OF _ _ _ this] white_fill_fill
    obtain t where "\<not> prefix black_fill t" "match_here (lit black_fill) t \<noteq> None"
      by (auto simp: black_fill_def re_fill_def dq_def)
    then show False by (simp add: match_here_lit)
  qed
  show "\<not> has_match re_ns0 (replace_all re_fill white_fill s)" if "\<not> has_match re_ns0 s"
  proof
    assume "has_match re_ns0 (replace_all re_fill white_fill s)"
    then have "has_match (lit ''ns0:'') (replace_all re_fill white_fill s)"
      by (simp add: re_ns0_def)
    from fill_lit_origin [OF _ _ _ this] white_ns0
    obtain t where "suffix t s" "match_here (lit ''ns0:'') t \<noteq> None"
      by (auto simp: re_ns0_def)
    with that show False unfolding has_match_suffix re_ns0_def by blast
  qed
  show "\<not> has_match re_xmlns (replace_all re_fill white_fill s)" if "\<not> has_match re_xmlns s"
  proof
    assume hm: "has_match re_xmlns (replace_all re_fill white_fill s)"
    have "\<exists>t. suffix t s \<and> \<not> prefix black_fill t \<and> match_here re_xmlns t \<noteq> None"
    proof (rule fill_origin [OF _ _ white_xmlns hm])
      show "match_here re_xmlns [] = None" by (simp add: re_xmlns_def lit_def)
      fix c cs
      assume "match_here re_xmlns (c # replace_all re_fill white_fill cs) \<noteq> None"
      then obtain y' where y': "c # replace_all re_fill white_fill cs = ''xmlns:ns0='' @ dq # y'"
        "dq \<in> set y'"
        unfolding match_xmlns by blast
      then have c: "c = CHR ''x''"
        and pre: "prefix (''mlns:ns0='' @ [dq]) (replace_all re_fill white_fill cs)"
        by (auto simp: prefix_def)
      have "CHR ''f'' \<notin> set (''mlns:ns0='' @ [dq])" by (simp add: dq_def)
      from fill_kept_prefix [OF this pre]
      obtain y where y: "cs = (''mlns:ns0='' @ [dq]) @ y"
        "replace_all re_fill white_fill cs
           = (''mlns:ns0='' @ [dq]) @ replace_all re_fill white_fill y" by blast
      with y' have "y' = replace_all re_fill white_fill y" by simp
      with y'(2) quote_fill have "dq \<in> set y" by blast
      with y(1) c show "match_here re_xmlns (c # cs) \<noteq> None"
        unfolding match_xmlns by simp
    qed
    with that show False unfolding has_match_suffix by blast
  qed
qed

lemma meta_removed:
  assumes del: "delimited re_meta bad_meta None s"
    and ns0: "\<not> has_match re_ns0 s" and xmlns: "\<not> has_match re_xmlns s"
    and fill: "\<not> has_match re_fill s"
  shows "sanitized (replace_all re_meta [] s)"
proof -
  have "\<not> has_match re_ns0 (replace_all re_meta [] s)"
  proof
    assume "has_match re_ns0 (replace_all re_meta [] s)"
    then have "has_match (lit ''ns0:'') (replace_all re_meta [] s)"
      by (simp add: re_ns0_def)
    from lit_origin [OF no_empty_match(4) _ _ del this]
    obtain t where "suffix t s" "match_here (lit ''ns0:'') t \<noteq> None"
      by (auto simp: bad_meta_def bad_xmlns_def bad_ns0_def)
    with ns0 show False unfolding has_match_suffix re_ns0_def by blast
  qed
  moreover have "\<not> has_match re_xmlns (replace_all re_meta [] s)"
  proof
    assume "has_match re_xmlns (replace_all re_meta [] s)"
    from xmlns_origin [OF no_empty_match(4) _ del this]
    obtain t where "suffix t s" "match_here re_xmlns t \<noteq> None"
      by (auto simp: bad_meta_def bad_xmlns_def)
    with xmlns show False unfolding has_match_suffix by blast
  qed
  moreover have "\<not> has_match re_fill (replace_all re_meta [] s)"
  proof
    assume "has_match re_fill (replace_all re_meta [] s)"
    then have "has_match (lit black_fill) (replace_all re_meta [] s)"
      by (simp add: re_fill_def)
    from lit_origin [OF no_empty_match(4) _ _ del this]
    obtain t where "suffix t s" "match_here (lit black_fill) t \<noteq> None"
      by (auto simp: bad_meta_def black_fill_def)
    with fill show False unfolding has_match_suffix re_fill_def by blast
  qed
  moreover have "\<not> has_match re_meta (replace_all re_meta [] s)"
  proof
    assume "has_match re_meta (replace_all re_meta [] s)"
    from meta_origin [OF no_empty_match(4) _ del this]
    show False by (auto simp: bad_meta_def)
  qed
  ultimately show ?thesis by (simp add: sanitized_def)
qed

lemma well_delimited_sanitized:
  assumes "well_delimited s"
  shows "sanitized (cleanSvgResponse s)"
proof -
  from assms have d1: "delimited re_ns0 bad_ns0 None s"
    and d2: "delimited re_xmlns bad_xmlns None (clean_ns0 s)"
    and d4: "delimited re_meta bad_meta None (clean_fill s)"
    by (simp_all add: well_delimited_def)
  have a: "\<not> has_match re_ns0 (clean_ns0 s)" using d1 by (rule ns0_removed)
  have b: "\<not> has_match re_ns0 (clean_xmlns s)" "\<not> has_match re_xmlns (clean_xmlns s)"
    unfolding clean_xmlns_def using xmlns_removed [OF d2 a] by blast+
  have c: "\<not> has_match re_ns0 (clean_fill s)" "\<not> has_match re_xmlns (clean_fill s)"
    "\<not> has_match re_fill (clean_fill s)"
    unfolding clean_fill_def using fill_replaced b by blast+
  show ?thesis
    unfolding cleanSvgResponse_def using meta_removed [OF d4 c] .
qed

subsection \<open>Texts that the sanitizer leaves alone\<close>

lemma match_len: "match_here r s = Some m \<Longrightarrow> m \<le> length s"
  by (induction r s arbitrary: m rule: match_here.induct)
    (auto split: if_splits option.splits)

lemma len_removed: "length (replace_all r [] s) \<le> length s"
proof (induction "length s" arbitrary: s rule: less_induct)
  case less
  show ?case
  proof (cases s)
    case Nil
    then show ?thesis by (simp split: option.splits)
  next
    case (Cons c cs)
    show ?thesis
    proof (cases "match_here r (c # cs)")
      case None
      then show ?thesis using less.hyps [of cs] Cons by simp
    next
      case (Some m)
      show ?thesis
      proof (cases m)
        case 0
        then show ?thesis using less.hyps [of cs] Cons Some by simp
      next
        case (Suc n)
        have "length (replace_all r [] (drop n cs)) \<le> length (drop n cs)"
          using less.hyps [of "drop n cs"] Cons by simp
        then show ?thesis using Cons Some Suc by simp
      qed
    qed
  qed
qed

lemma len_removed_strict:
  assumes ne: "\<And>t. match_here r t \<noteq> Some 0"
  shows "has_match r s \<Longrightarrow> length (replace_all r [] s) < length s"
proof (induction s)
  case Nil
  then obtain m where "match_here r [] = Some m" by auto
  with match_len [of r "[]" m] ne show ?case by auto
next
  case (Cons c cs)
  show ?case
  proof (cases "match_here r (c # cs)")
    case None
    with Cons show ?thesis by simp
  next
    case (Some m)
    show ?thesis
    proof (cases m)
      case 0
      with Some ne show ?thesis by blast
    next
      case (Suc n)
      have "length (replace_all r [] (drop n cs)) \<le> length (drop n cs)"
        by (rule len_removed)
      then show ?thesis using Some Suc by simp
    qed
  qed
qed

lemma len_fill: "length (replace_all re_fill white_fill s) = length s"
proof (induction "length s" arbitrary: s rule: less_induct)
  case less
  show ?case
  proof (cases s)
    case Nil
    then show ?thesis by (simp add: match_fill black_fill_def)
  next
    case (Cons c cs)
    show ?thesis
    proof (cases "prefix black_fill (c # cs)")
      case True
      then have "length black_fill \<le> length (c # cs)" by (rule prefix_length_le)
      then have "13 \<le> length cs" by (simp add: black_fill_def)
      moreover have "length (replace_all re_fill white_fill (drop 13 cs)) = length (drop 13 cs)"
        using less.hyps [of "drop 13 cs"] Cons by simp
      moreover have "replace_all re_fill white_fill (c # cs)
          = white_fill @ replace_all re_fill white_fill (drop 13 cs)"
        using True by (simp add: replace_fill_Cons del: replace_all.simps)
      moreover have "length white_fill = 14" by (simp add: white_fill_def)
      ultimately show ?thesis using Cons by simp
    next
      case False
      then show ?thesis using less.hyps [of cs] Cons
        by (simp add: replace_fill_Cons del: replace_all.simps)
    qed
  qed
qed

lemma fill_changes: "has_match re_fill s \<Longrightarrow> replace_all re_fill white_fill s \<noteq> s"
proof (induction s)
  case Nil
  then show ?case by (simp add: match_fill black_fill_def)
next
  case (Cons c cs)
  show ?case
  proof (cases "prefix black_fill (c # cs)")
    case True
    then have "replace_all re_fill white_fill (c # cs)
        = white_fill @ replace_all re_fill white_fill (drop 13 cs)"
      by (simp add: replace_fill_Cons del: replace_all.simps)
    moreover have "\<not> prefix white_fill (c # cs)"
      using True by (auto simp: prefix_def black_fill_def white_fill_def)
    ultimately show ?thesis by (metis prefixI)
  next
    case False
    with Cons.prems have "has_match re_fill cs" by (simp add: match_fill)
    with Cons.IH False show ?thesis
      by (simp add: replace_fill_Cons del: replace_all.simps)
  qed
qed

lemma sanitized_fixpoint: "sanitized s \<Longrightarrow> cleanSvgResponse s = s"
  by (simp add: sanitized_def cleanSvgResponse_def clean_fill_def clean_xmlns_def
      clean_ns0_def replace_all_no_match)

lemma fixpoint_sanitized:
  assumes fp: "cleanSvgResponse s = s"
  shows "sanitized s"
proof -
  let ?s1 = "clean_ns0 s" and ?s2 = "clean_xmlns s" and ?s3 = "clean_fill s"
  have l1: "length ?s1 \<le> length s" unfolding clean_ns0_def by (rule len_removed)
  have l2: "length ?s2 \<le> length ?s1" unfolding clean_xmlns_def by (rule len_removed)
  have l3: "length ?s3 = length ?s2" unfolding clean_fill_def by (rule len_fill)
  have l4: "length (cleanSvgResponse s) \<le> length ?s3"
    unfolding cleanSvgResponse_def by (rule len_removed)
  from fp have l: "length (cleanSvgResponse s) = length s" by simp
  have n1: "\<not> has_match re_ns0 s"
  proof
    assume "has_match re_ns0 s"
    from len_removed_strict [OF no_empty_match(1) this] have "length ?s1 < length s"
      by (simp add: clean_ns0_def)
    with l l2 l3 l4 show False by simp
  qed
  then have s1: "?s1 = s" by (simp add: clean_ns0_def replace_all_no_match)
  have n2: "\<not> has_match re_xmlns s"
  proof
    assume "has_match re_xmlns s"
    from len_removed_strict [OF no_empty_match(2) this] have "length ?s2 < length s"
      by (simp add: clean_xmlns_def s1)
    with l l3 l4 show False by simp
  qed
  then have s2: "?s2 = s" by (simp add: clean_xmlns_def s1 replace_all_no_match)
  have n4: "\<not> has_match re_meta ?s3"
  proof
    assume "has_match re_meta ?s3"
    from len_removed_strict [OF no_empty_match(4) this]
    have "length (cleanSvgResponse s) < length ?s3"
      by (simp add: cleanSvgResponse_def)
    with l l3 s2 show False by simp
  qed
  then have "cleanSvgResponse s = ?s3"
    by (simp add: cleanSvgResponse_def replace_all_no_match)
  with fp have s3: "?s3 = s" by simp
  then have "replace_all re_fill white_fill s = s" by (simp add: clean_fill_def s2)
  with fill_changes have n3: "\<not> has_match re_fill s" by blast
  from n1 n2 n3 n4 s3 show ?thesis by (simp add: sanitized_def)
qed

lemmas sanitizer_defs =
  cleanSvgResponse_def clean_fill_def clean_xmlns_def clean_ns0_def
  re_ns0_def re_xmlns_def re_fill_def re_meta_def lit_def black_fill_def white_fill_def dq_def

lemma example_svg_cleaned:
  "cleanSvgResponse example_svg =
     ''<svg  width='' @ [dq] @ ''8'' @ [dq] @ ''><g fill='' @ [dq] @ ''#ffffff'' @ [dq]
     @ ''><path d='' @ [dq] @ ''M0 0z'' @ [dq] @ ''/></g></svg>''"
  by (simp add: example_svg_def sanitizer_defs)

lemma example_svg_well_delimited: "well_delimited example_svg"
  by (simp add: well_delimited_def example_svg_def sanitizer_defs
      bad_ns0_def bad_xmlns_def bad_meta_def)

subsection \<open>A black fill that no removed match covers\<close>











subsection \<open>The claims on the sanitizer\<close>




text \<open>
  C4 (as amended). Sanitizing the output of the sanitizer once more changes nothing
  exactly when that output is sanitized, that is, contains none of the four patterns.
  The sanitizer is the identity on every sanitized text, and for every well delimited
  input its output is sanitized, so that applying it twice equals applying it once.
\<close>

theorem sanitizer_idempotent_iff:
  "(cleanSvgResponse (cleanSvgResponse s) = cleanSvgResponse s
      \<longleftrightarrow> sanitized (cleanSvgResponse s))
   \<and> (sanitized s \<longrightarrow> cleanSvgResponse s = s)
   \<and> (well_delimited s \<longrightarrow> cleanSvgResponse (cleanSvgResponse s) = cleanSvgResponse s)"
  using sanitized_fixpoint fixpoint_sanitized well_delimited_sanitized by blast

text \<open>The theorem at work on the example markup and on its sanitized form.\<close>

theorem sanitizer_idempotent_iff_witness:
  "well_delimited example_svg
   \<and> cleanSvgResponse (cleanSvgResponse example_svg) = cleanSvgResponse example_svg
   \<and> sanitized (cleanSvgResponse example_svg)
   \<and> cleanSvgResponse (cleanSvgResponse example_svg)
       = ''<svg  width='' @ [dq] @ ''8'' @ [dq] @ ''><g fill='' @ [dq] @ ''#ffffff'' @ [dq]
         @ ''><path d='' @ [dq] @ ''M0 0z'' @ [dq] @ ''/></g></svg>''"
proof -
  note iff = sanitizer_idempotent_iff [of example_svg]
  have wd: "well_delimited example_svg" by (rule example_svg_well_delimited)
  from iff wd
  have idem: "cleanSvgResponse (cleanSvgResponse example_svg) = cleanSvgResponse example_svg"
    by blast
  with iff have san: "sanitized (cleanSvgResponse example_svg)" by blast
  have val: "cleanSvgResponse (cleanSvgResponse example_svg)
       = ''<svg  width='' @ [dq] @ ''8'' @ [dq] @ ''><g fill='' @ [dq] @ ''#ffffff'' @ [dq]
         @ ''><path d='' @ [dq] @ ''M0 0z'' @ [dq] @ ''/></g></svg>''"
    using idem example_svg_cleaned by (rule trans)
  show ?thesis by (intro conjI wd idem san val)
qed

text \<open>
  C4 as it was stated fails: the first application turns \<^verbatim>\<open>nns0:s0:\<close> into \<^verbatim>\<open>ns0:\<close>,
  the second turns that into the empty text.
\<close>

theorem sanitizer_not_idempotent:
  "cleanSvgResponse ''nns0:s0:'' = ''ns0:''
   \<and> cleanSvgResponse (cleanSvgResponse ''nns0:s0:'') = []
   \<and> cleanSvgResponse (cleanSvgResponse ''nns0:s0:'') \<noteq> cleanSvgResponse ''nns0:s0:''"
  by (simp add: sanitizer_defs)

section \<open>Results on the debounce\<close>

lemma pending_change:
  "single_timer w \<Longrightarrow>
   pending (change h w) =
     [\<lparr>timer_id = next_id w, due = clock w + 500,
       seen_image = originalImage (h (cells w)),
       seen_params = State.params (h (cells w))\<rparr>]"
  by (cases "pending w")
     (auto simp: change_def effect_run_def effect_cleanup_def setTimeout_500_def
      clearTimeout_def single_timer_def split: option.splits)

lemma change_fields:
  "clock (change h w) = clock w" "started (change h w) = started w"
  "cells (change h w) = h (cells w)" "effect_timer (change h w) = Some (next_id w)"
  by (auto simp: change_def effect_run_def effect_cleanup_def setTimeout_500_def
      clearTimeout_def split: option.splits)

lemma single_timer_change: "single_timer w \<Longrightarrow> single_timer (change h w)"
  by (simp add: single_timer_def pending_change change_fields)

lemma single_timer_mounted: "single_timer mounted"
  by (simp add: single_timer_def mounted_def effect_run_def setTimeout_500_def)

lemma fire_fields:
  "pending (fire w t) = pending w" "effect_timer (fire w t) = effect_timer w"
  "clock (fire w t) = clock w"
  by (auto simp: fire_def processImage_start_def split: option.splits prod.splits)

lemma foldl_fire_fields:
  "pending (foldl fire w ts) = pending w \<and> effect_timer (foldl fire w ts) = effect_timer w
   \<and> clock (foldl fire w ts) = clock w"
  by (induction ts arbitrary: w) (simp_all add: fire_fields)

lemma pending_elapse:
  "pending (elapse d w) = filter (\<lambda>t. \<not> due t \<le> clock w + d) (pending w)"
  by (simp add: elapse_def Let_def foldl_fire_fields)

lemma effect_timer_elapse: "effect_timer (elapse d w) = effect_timer w"
  by (simp add: elapse_def Let_def foldl_fire_fields)

lemma clock_elapse: "clock (elapse d w) = clock w + d"
  by (simp add: elapse_def Let_def)

lemma single_timer_elapse: "single_timer w \<Longrightarrow> single_timer (elapse d w)"
  by (cases "pending w")
    (auto simp: single_timer_def pending_elapse effect_timer_elapse)

lemma elapse_early:
  "pending w = [t] \<Longrightarrow> clock w + d < due t \<Longrightarrow> elapse d w = w\<lparr>clock := clock w + d\<rparr>"
  by (simp add: elapse_def Let_def)

lemma elapse_none:
  "pending w = [] \<Longrightarrow> elapse d w = w\<lparr>clock := clock w + d\<rparr>"
  by (simp add: elapse_def Let_def)

lemma elapse_ripe:
  "pending w = [t] \<Longrightarrow> due t \<le> clock w + d \<Longrightarrow>
   elapse d w = (fire (w\<lparr>pending := []\<rparr>) t)\<lparr>clock := clock w + d\<rparr>"
  by (simp add: elapse_def Let_def)

lemma fire_image: "originalImage (cells (fire w t)) = originalImage (cells w)"
  by (auto simp: fire_def processImage_start_def split: option.splits)

lemma foldl_fire_image: "originalImage (cells (foldl fire w ts)) = originalImage (cells w)"
  by (induction ts arbitrary: w) (simp_all add: fire_image)

lemma elapse_image: "originalImage (cells (elapse d w)) = originalImage (cells w)"
  by (simp add: elapse_def Let_def foldl_fire_image)

lemma example_screen_facts:
  "single_timer example_screen" "clock example_screen = 1000"
  "originalImage (cells example_screen) = Some ''data:image/png;base64,PNG''"
proof -
  show "single_timer example_screen"
    unfolding example_screen_def
    by (intro single_timer_elapse single_timer_change single_timer_mounted)
  show "clock example_screen = 1000"
    by (simp add: example_screen_def clock_elapse change_fields mounted_def effect_run_def
        setTimeout_500_def)
  have "cells mounted = initial"
    by (simp add: mounted_def effect_run_def setTimeout_500_def)
  then show "originalImage (cells example_screen) = Some ''data:image/png;base64,PNG''"
    by (simp add: example_screen_def elapse_image change_fields handleImageUpload_def
        processFile_def example_read_def example_png_def)
qed

text \<open>
  C9. After the first render one timer is pending, and a change or the passing of time
  keeps at most one pending. Every change of the parameters or of the image clears the
  pending timer and sets a single new one, due 500 ms later. So after two changes 200 ms
  apart, with an image present and at least 500 ms of quiet, exactly one conversion
  request has started, 500 ms after the second change and with the parameters of that
  change; more quiet time starts no other, and less than 500 ms of quiet after a change
  starts none. When the image is absent, the timer starts no request and changes no cell.
\<close>

theorem debounce_single_request:
  "single_timer mounted
   \<and> (single_timer w \<longrightarrow>
      single_timer (change h w)
      \<and> pending (change h w) =
          [\<lparr>timer_id = next_id w, due = clock w + 500,
            seen_image = originalImage (h (cells w)),
            seen_params = State.params (h (cells w))\<rparr>])
   \<and> (single_timer w \<longrightarrow> single_timer (elapse d w))
   \<and> (single_timer w \<longrightarrow> originalImage (h2 (h1 (cells w))) = Some url \<longrightarrow> url \<noteq> [] \<longrightarrow>
       500 \<le> d \<longrightarrow>
         started (elapse d (change h2 (elapse 200 (change h1 w))))
           = started w @
             [(clock w + 200 + 500,
               \<lparr>file_field = url, form_fields = State.params (h2 (h1 (cells w)))\<rparr>)]
         \<and> started (elapse d' (elapse d (change h2 (elapse 200 (change h1 w)))))
           = started (elapse d (change h2 (elapse 200 (change h1 w)))))
   \<and> (single_timer w \<longrightarrow> \<not> truthy (originalImage (h (cells w))) \<longrightarrow>
         started (elapse d (change h w)) = started w
         \<and> cells (elapse d (change h w)) = h (cells w))
   \<and> (single_timer w \<longrightarrow> d < 500 \<longrightarrow> started (elapse d (change h w)) = started w)"
proof (intro conjI impI)
  show "single_timer mounted" by (rule single_timer_mounted)
next
  assume st: "single_timer w" and early: "d < 500"
  have "pending (change h w) =
          [\<lparr>timer_id = next_id w, due = clock w + 500,
            seen_image = originalImage (h (cells w)),
            seen_params = State.params (h (cells w))\<rparr>]"
    using st by (rule pending_change)
  from elapse_early [OF this] early
  show "started (elapse d (change h w)) = started w"
    by (simp add: change_fields)
next
  assume st: "single_timer w"
  show "single_timer (change h w)" using st by (rule single_timer_change)
  show "pending (change h w) =
          [\<lparr>timer_id = next_id w, due = clock w + 500,
            seen_image = originalImage (h (cells w)),
            seen_params = State.params (h (cells w))\<rparr>]"
    using st by (rule pending_change)
  show "single_timer (elapse d w)" using st by (rule single_timer_elapse)
next
  assume st: "single_timer w" and no: "\<not> truthy (originalImage (h (cells w)))"
  let ?t = "\<lparr>timer_id = next_id w, due = clock w + 500,
            seen_image = originalImage (h (cells w)),
            seen_params = State.params (h (cells w))\<rparr>"
  have p: "pending (change h w) = [?t]" using st by (rule pending_change)
  show "started (elapse d (change h w)) = started w"
  proof (cases "500 \<le> d")
    case True
    then show ?thesis using no
      by (simp add: elapse_ripe [OF p] change_fields fire_def)
  next
    case False
    then show ?thesis
      by (simp add: elapse_early [OF p] change_fields)
  qed
  show "cells (elapse d (change h w)) = h (cells w)"
  proof (cases "500 \<le> d")
    case True
    then show ?thesis using no
      by (simp add: elapse_ripe [OF p] change_fields fire_def)
  next
    case False
    then show ?thesis
      by (simp add: elapse_early [OF p] change_fields)
  qed
next
  assume st: "single_timer w" and img: "originalImage (h2 (h1 (cells w))) = Some url"
    and url: "url \<noteq> []" and d: "500 \<le> d"
  let ?w1 = "change h1 w"
  let ?w2 = "elapse 200 ?w1"
  let ?w3 = "change h2 ?w2"
  let ?t1 = "\<lparr>timer_id = next_id w, due = clock w + 500,
            seen_image = originalImage (h1 (cells w)),
            seen_params = State.params (h1 (cells w))\<rparr>"
  have p1: "pending ?w1 = [?t1]" using st by (rule pending_change)
  have w2: "?w2 = ?w1\<lparr>clock := clock w + 200\<rparr>"
    by (simp add: elapse_early [OF p1] change_fields)
  have st2: "single_timer ?w2"
    using st by (intro single_timer_elapse single_timer_change)
  let ?t3 = "\<lparr>timer_id = next_id ?w2, due = clock w + 200 + 500,
            seen_image = Some url,
            seen_params = State.params (h2 (h1 (cells w)))\<rparr>"
  have c2: "cells ?w2 = h1 (cells w)" "clock ?w2 = clock w + 200" "started ?w2 = started w"
    by (simp_all add: w2 change_fields)
  have p3: "pending ?w3 = [?t3]"
    using pending_change [OF st2, of h2] by (simp add: c2 img)
  have e: "elapse d ?w3 = (fire (?w3\<lparr>pending := []\<rparr>) ?t3)\<lparr>clock := clock ?w3 + d\<rparr>"
    using d by (intro elapse_ripe [OF p3]) (simp add: change_fields c2)
  show "started (elapse d ?w3) = started w @
             [(clock w + 200 + 500,
               \<lparr>file_field = url, form_fields = State.params (h2 (h1 (cells w)))\<rparr>)]"
    using url by (simp add: e fire_def processImage_start_def change_fields c2)
  have "pending (elapse d ?w3) = []"
    using d by (simp add: pending_elapse p3 change_fields c2)
  then show "started (elapse d' (elapse d ?w3)) = started (elapse d ?w3)"
    by (simp add: elapse_none)
qed

text \<open>
  The theorem at work: with the example picture loaded, the threshold is moved at
  1000 ms and the noise reduction at 1200 ms; the one request starts at 1700 ms.
\<close>

theorem debounce_single_request_witness:
  "single_timer example_screen
   \<and> originalImage (updateParam denoise (Num 2)
        (updateParam threshold (Num 100) (cells example_screen)))
       = Some ''data:image/png;base64,PNG''
   \<and> ''data:image/png;base64,PNG'' \<noteq> []
   \<and> (500::nat) \<le> 500
   \<and> started (elapse 500 (change (updateParam denoise (Num 2))
        (elapse 200 (change (updateParam threshold (Num 100)) example_screen))))
       = started example_screen @
         [(1700,
           \<lparr>file_field = ''data:image/png;base64,PNG'',
            form_fields = State.params (updateParam denoise (Num 2)
              (updateParam threshold (Num 100) (cells example_screen)))\<rparr>)]"
proof -
  have img: "originalImage (updateParam denoise (Num 2)
        (updateParam threshold (Num 100) (cells example_screen)))
       = Some ''data:image/png;base64,PNG''"
    by (simp add: updateParam_def example_screen_facts)
  show ?thesis
    using debounce_single_request [where w = example_screen and ?h1.0 = "updateParam threshold (Num 100)"
        and ?h2.0 = "updateParam denoise (Num 2)" and url = "''data:image/png;base64,PNG''"
        and d = 500]
      example_screen_facts img
    by simp
qed

end
